theory Spec2Isabelle
  imports Main "HOL-Library.Char_ord" "HOL-Library.List_Lexorder" "HOL-Library.AList"
    "HOL-Library.Multiset"
begin

section \<open>The vote contract of \<^verbatim>\<open>src/assetTransfer.ts\<close>\<close>

text \<open>
  The contract stores one vote per voter in the ledger's World State and answers queries
  over it. Every transaction of the class \<^verbatim>\<open>AssetTransferContract\<close> is
  embedded below as a function that takes the World State and returns the outcome
  (an error or a value) together with the World State it leaves.

  Strings are byte sequences: a JavaScript string is identified with its UTF-8 bytes,
  which is what \<^verbatim>\<open>Buffer.from(s)\<close> stores and what
  \<^verbatim>\<open>buf.toString()\<close> reads back from well-formed UTF-8. Transaction
  arguments reach the contract as UTF-8 text, so every string the contract encodes is of
  that kind. A code unit that is a surrogate on its own, which only a
  \<^verbatim>\<open>\uXXXX\<close> escape can bring into a parsed string, is kept as the
  three bytes of its code. The two transactions that scan the whole store read each
  value through the decoder \<open>toString_utf8\<close> below, which replaces what is not
  UTF-8; \<^verbatim>\<open>ReadVote\<close> returns the stored text, which is what the
  decoder gives for a value the contract wrote.
\<close>

subsection \<open>Canonical encoding\<close>

text \<open>
  A structured record as \<^verbatim>\<open>sortKeysRecursive\<close> and
  \<^verbatim>\<open>stringify\<close> receive it: a string, or a mapping of field names to
  such values. The list holds the fields in the object's own property order.
\<close>

datatype record_value = Str string | Rec "(string \<times> record_value) list"

text \<open>The interface \<^verbatim>\<open>Vote\<close>.\<close>

record Vote =
  VoterID :: string
  CandidateID :: string
  Station :: string

text \<open>
  The object literal \<^verbatim>\<open>{VoterID: .., CandidateID: .., Station: ..}\<close>
  that every writer of the contract builds, fields in the order of the literal.
\<close>

definition vote_object :: "Vote \<Rightarrow> record_value" where
  "vote_object vote =
     Rec [(''VoterID'', Str (VoterID vote)), (''CandidateID'', Str (CandidateID vote)),
          (''Station'', Str (Station vote))]"

text \<open>
  \<^verbatim>\<open>JSON.stringify\<close> of a string (ECMAScript's QuoteJSONString): the
  double quote and the backslash are escaped, the control characters below
  \<^verbatim>\<open>0x20\<close> get their short escape or a \<^verbatim>\<open>\u00xx\<close>
  escape in lower-case hexadecimal, every other byte is copied.
\<close>

definition hex_digit :: "nat \<Rightarrow> char" where
  "hex_digit d = ''0123456789abcdef'' ! d"

definition UnicodeEscape :: "char \<Rightarrow> string" where
  "UnicodeEscape c =
     [CHR 0x5C, CHR ''u'', hex_digit ((of_char c :: nat) div 4096 mod 16),
      hex_digit ((of_char c :: nat) div 256 mod 16),
      hex_digit ((of_char c :: nat) div 16 mod 16), hex_digit ((of_char c :: nat) mod 16)]"

definition escape_char :: "char \<Rightarrow> string" where
  "escape_char c =
     (if c = CHR 0x08 then [CHR 0x5C, CHR ''b'']
      else if c = CHR 0x09 then [CHR 0x5C, CHR ''t'']
      else if c = CHR 0x0A then [CHR 0x5C, CHR ''n'']
      else if c = CHR 0x0C then [CHR 0x5C, CHR ''f'']
      else if c = CHR 0x0D then [CHR 0x5C, CHR ''r'']
      else if c = CHR 0x22 then [CHR 0x5C, CHR 0x22]
      else if c = CHR 0x5C then [CHR 0x5C, CHR 0x5C]
      else if (of_char c :: nat) < 0x20 then UnicodeEscape c
      else [c])"

definition QuoteJSONString :: "string \<Rightarrow> string" where
  "QuoteJSONString s = CHR 0x22 # concat (map escape_char s) @ [CHR 0x22]"

text \<open>\<^verbatim>\<open>Array.prototype.join\<close> on strings.\<close>

definition join :: "string \<Rightarrow> string list \<Rightarrow> string" where
  "join sep xs = (case xs of [] \<Rightarrow> [] | x # r \<Rightarrow> x @ concat (map (\<lambda>y. sep @ y) r))"

text \<open>
  Modelled from the spec: the packages \<^verbatim>\<open>sort-keys-recursive\<close> and
  \<^verbatim>\<open>json-stringify-deterministic\<close> are imported by the contract and are
  not part of its sources. Section 4.1 of the specification: recursively sort all
  mapping keys at every nesting level, then serialise to a deterministic textual form
  with stable key order, fixed separators and no whitespace. Strings and keys are
  written by \<^verbatim>\<open>JSON.stringify\<close>.
\<close>

fun sortKeysRecursive :: "record_value \<Rightarrow> record_value" where
  "sortKeysRecursive (Str s) = Str s"
| "sortKeysRecursive (Rec kvs) =
     Rec (sort_key fst (map (\<lambda>kv. (fst kv, sortKeysRecursive (snd kv))) kvs))"

fun stringify :: "record_value \<Rightarrow> string" where
  "stringify (Str s) = QuoteJSONString s"
| "stringify (Rec kvs) =
     ''{'' @ join '','' (map (\<lambda>kv. QuoteJSONString (fst kv) @ '':'' @ stringify (snd kv))
                          (sort_key fst kvs)) @ ''}''"

text \<open>
  The expression \<^verbatim>\<open>Buffer.from(stringify(sortKeysRecursive(vote)))\<close> of
  \<^verbatim>\<open>InitLedger\<close>, \<^verbatim>\<open>RegisterVote\<close> and
  \<^verbatim>\<open>UpdateVote\<close>.
\<close>

definition encode :: "Vote \<Rightarrow> string" where
  "encode vote = stringify (sortKeysRecursive (vote_object vote))"

subsection \<open>Reading JSON text\<close>

text \<open>
  The values \<^verbatim>\<open>JSON.parse\<close> returns. A number is kept as the text of
  its literal. An object holds its properties in the order of their first occurrence;
  a repeated key keeps its place and takes the later value.
\<close>

datatype json =
    JNull
  | JBool bool
  | JNumber string
  | JString string
  | JArray "json list"
  | JObject "(string \<times> json) list"

definition is_ws :: "char \<Rightarrow> bool" where
  "is_ws c = (c = CHR 0x20 \<or> c = CHR 0x09 \<or> c = CHR 0x0A \<or> c = CHR 0x0D)"

definition skip_ws :: "string \<Rightarrow> string" where
  "skip_ws s = dropWhile is_ws s"

definition is_digit :: "char \<Rightarrow> bool" where
  "is_digit c = (CHR ''0'' \<le> c \<and> c \<le> CHR ''9'')"

definition hex_value :: "char \<Rightarrow> nat option" where
  "hex_value c =
     (if CHR ''0'' \<le> c \<and> c \<le> CHR ''9'' then Some (of_char c - 48)
      else if CHR ''a'' \<le> c \<and> c \<le> CHR ''f'' then Some (of_char c - 87)
      else if CHR ''A'' \<le> c \<and> c \<le> CHR ''F'' then Some (of_char c - 55)
      else None)"

text \<open>The value of four hexadecimal digits at the head of the text.\<close>

definition hex4_value :: "string \<Rightarrow> nat option" where
  "hex4_value s =
     (case s of
        a # b # c # d # r \<Rightarrow>
          (case (hex_value a, hex_value b, hex_value c, hex_value d) of
             (Some x, Some y, Some z, Some w) \<Rightarrow> Some (x * 4096 + y * 256 + z * 16 + w)
           | _ \<Rightarrow> None)
      | _ \<Rightarrow> None)"

text \<open>The UTF-8 bytes of a code point.\<close>

definition utf8 :: "nat \<Rightarrow> string" where
  "utf8 n =
     (if n < 0x80 then [char_of n]
      else if n < 0x800 then [char_of (0xC0 + n div 64), char_of (0x80 + n mod 64)]
      else if n < 0x10000 then
        [char_of (0xE0 + n div 4096), char_of (0x80 + n div 64 mod 64), char_of (0x80 + n mod 64)]
      else
        [char_of (0xF0 + n div 262144), char_of (0x80 + n div 4096 mod 64),
         char_of (0x80 + n div 64 mod 64), char_of (0x80 + n mod 64)])"

text \<open>
  A \<^verbatim>\<open>\uXXXX\<close> escape whose code unit is a low surrogate, at the head of
  the text.
\<close>

definition low_surrogate_escape :: "string \<Rightarrow> nat option" where
  "low_surrogate_escape s =
     (case s of
        b # u # r \<Rightarrow>
          (if b = CHR 0x5C \<and> u = CHR ''u'' then
             (case hex4_value r of
                Some l \<Rightarrow> if 0xDC00 \<le> l \<and> l < 0xE000 then Some l else None
              | None \<Rightarrow> None)
           else None)
      | _ \<Rightarrow> None)"

text \<open>
  The text after \<^verbatim>\<open>\u\<close>: the bytes it stands for and the number of
  characters read. A high surrogate followed by an escaped low surrogate is one code
  point.
\<close>

definition unicode_escape :: "string \<Rightarrow> (string \<times> nat) option" where
  "unicode_escape r =
     (case hex4_value r of
        None \<Rightarrow> None
      | Some u \<Rightarrow>
          (if 0xD800 \<le> u \<and> u < 0xDC00 then
             (case low_surrogate_escape (drop 4 r) of
                Some l \<Rightarrow> Some (utf8 (0x10000 + (u - 0xD800) * 0x400 + (l - 0xDC00)), 10)
              | None \<Rightarrow> Some (utf8 u, 4))
           else Some (utf8 u, 4)))"

definition unescape :: "char \<Rightarrow> char option" where
  "unescape e =
     (if e = CHR 0x22 then Some (CHR 0x22)
      else if e = CHR 0x5C then Some (CHR 0x5C)
      else if e = CHR ''/'' then Some (CHR ''/'')
      else if e = CHR ''b'' then Some (CHR 0x08)
      else if e = CHR ''f'' then Some (CHR 0x0C)
      else if e = CHR ''n'' then Some (CHR 0x0A)
      else if e = CHR ''r'' then Some (CHR 0x0D)
      else if e = CHR ''t'' then Some (CHR 0x09)
      else None)"

text \<open>
  The characters of a string literal after its opening quote: the string read and the
  text after the closing quote. An unescaped control character ends the parse.
\<close>

fun string_chars :: "string \<Rightarrow> (string \<times> string) option" where
  "string_chars [] = None"
| "string_chars (c # cs) =
     (if c = CHR 0x22 then Some ([], cs)
      else if c = CHR 0x5C then
        (case cs of
           [] \<Rightarrow> None
         | e # r \<Rightarrow>
             if e = CHR ''u'' then
               (case unicode_escape r of
                  None \<Rightarrow> None
                | Some (bytes, k) \<Rightarrow>
                    (case string_chars (drop k r) of
                       None \<Rightarrow> None
                     | Some (str, rest) \<Rightarrow> Some (bytes @ str, rest)))
             else
               (case unescape e of
                  None \<Rightarrow> None
                | Some d \<Rightarrow>
                    (case string_chars r of
                       None \<Rightarrow> None
                     | Some (str, rest) \<Rightarrow> Some (d # str, rest))))
      else if (of_char c :: nat) < 0x20 then None
      else
        (case string_chars cs of
           None \<Rightarrow> None
         | Some (str, rest) \<Rightarrow> Some (c # str, rest)))"

text \<open>
  A number literal at the head of the text: an optional minus, an integer part without
  a leading zero, an optional fraction and an optional exponent.
\<close>

definition int_part :: "string \<Rightarrow> (string \<times> string) option" where
  "int_part s =
     (case s of
        [] \<Rightarrow> None
      | c # r \<Rightarrow>
          if c = CHR ''0'' then Some ([c], r)
          else if is_digit c then Some (c # takeWhile is_digit r, dropWhile is_digit r)
          else None)"

definition frac_part :: "string \<Rightarrow> string \<times> string" where
  "frac_part s =
     (case s of
        c # r \<Rightarrow>
          if c = CHR ''.'' \<and> takeWhile is_digit r \<noteq> []
          then (c # takeWhile is_digit r, dropWhile is_digit r) else ([], s)
      | [] \<Rightarrow> ([], s))"

definition exp_digits :: "string \<Rightarrow> string \<Rightarrow> string \<Rightarrow> string \<times> string" where
  "exp_digits s mark r =
     (if takeWhile is_digit r \<noteq> [] then (mark @ takeWhile is_digit r, dropWhile is_digit r)
      else ([], s))"

definition exp_part :: "string \<Rightarrow> string \<times> string" where
  "exp_part s =
     (case s of
        c # r \<Rightarrow>
          if c = CHR ''e'' \<or> c = CHR ''E'' then
            (case r of
               d # r' \<Rightarrow>
                 if d = CHR ''+'' \<or> d = CHR ''-'' then exp_digits s [c, d] r'
                 else exp_digits s [c] r
             | [] \<Rightarrow> ([], s))
          else ([], s)
      | [] \<Rightarrow> ([], s))"

definition number_literal :: "string \<Rightarrow> (string \<times> string) option" where
  "number_literal s =
     (let (sign, s1) = (case s of c # r \<Rightarrow> if c = CHR ''-'' then ([c], r) else ([], s) | [] \<Rightarrow> ([], s))
      in case int_part s1 of
           None \<Rightarrow> None
         | Some (i, s2) \<Rightarrow>
             (let (f, s3) = frac_part s2; (e, s4) = exp_part s3
              in Some (sign @ i @ f @ e, s4)))"

text \<open>
  The text after a literal name (\<^verbatim>\<open>true\<close>, \<^verbatim>\<open>false\<close>,
  \<^verbatim>\<open>null\<close>) when the text starts with it.
\<close>

definition after_prefix :: "string \<Rightarrow> string \<Rightarrow> string option" where
  "after_prefix name s = (if take (length name) s = name then Some (drop (length name) s) else None)"

text \<open>
  The properties of an object in the order \<^verbatim>\<open>JSON.parse\<close> creates them.
\<close>

definition object_of :: "(string \<times> json) list \<Rightarrow> (string \<times> json) list" where
  "object_of members = foldl (\<lambda>obj kv. AList.update (fst kv) (snd kv) obj) [] members"

text \<open>
  The grammar of JSON values by recursive descent. The first argument bounds the number
  of nested calls; \<open>JSON_parse\<close> below starts it high enough for the whole text.
  \<open>parse_elements\<close> reads the elements of an array up to its closing bracket,
  \<open>parse_members\<close> the members of an object up to its closing brace.
\<close>

fun parse_value :: "nat \<Rightarrow> string \<Rightarrow> (json \<times> string) option"
  and parse_elements :: "nat \<Rightarrow> string \<Rightarrow> (json list \<times> string) option"
  and parse_members :: "nat \<Rightarrow> string \<Rightarrow> ((string \<times> json) list \<times> string) option"
where
  "parse_value 0 s = None"
| "parse_value (Suc n) s =
     (case skip_ws s of
        [] \<Rightarrow> None
      | c # r \<Rightarrow>
          if c = CHR ''{'' then
            (case skip_ws r of
               [] \<Rightarrow> None
             | d # r' \<Rightarrow>
                 if d = CHR ''}'' then Some (JObject [], r')
                 else
                   (case parse_members n (d # r') of
                      None \<Rightarrow> None
                    | Some (members, rest) \<Rightarrow> Some (JObject (object_of members), rest)))
          else if c = CHR ''['' then
            (case skip_ws r of
               [] \<Rightarrow> None
             | d # r' \<Rightarrow>
                 if d = CHR '']'' then Some (JArray [], r')
                 else
                   (case parse_elements n (d # r') of
                      None \<Rightarrow> None
                    | Some (elements, rest) \<Rightarrow> Some (JArray elements, rest)))
          else if c = CHR 0x22 then
            (case string_chars r of
               None \<Rightarrow> None
             | Some (str, rest) \<Rightarrow> Some (JString str, rest))
          else if c = CHR ''t'' then
            (case after_prefix ''true'' (c # r) of
               None \<Rightarrow> None
             | Some rest \<Rightarrow> Some (JBool True, rest))
          else if c = CHR ''f'' then
            (case after_prefix ''false'' (c # r) of
               None \<Rightarrow> None
             | Some rest \<Rightarrow> Some (JBool False, rest))
          else if c = CHR ''n'' then
            (case after_prefix ''null'' (c # r) of
               None \<Rightarrow> None
             | Some rest \<Rightarrow> Some (JNull, rest))
          else
            (case number_literal (c # r) of
               None \<Rightarrow> None
             | Some (lit, rest) \<Rightarrow> Some (JNumber lit, rest)))"
| "parse_elements 0 s = None"
| "parse_elements (Suc n) s =
     (case parse_value n s of
        None \<Rightarrow> None
      | Some (v, r) \<Rightarrow>
          (case skip_ws r of
             [] \<Rightarrow> None
           | c # r' \<Rightarrow>
               if c = CHR '','' then
                 (case parse_elements n r' of
                    None \<Rightarrow> None
                  | Some (vs, rest) \<Rightarrow> Some (v # vs, rest))
               else if c = CHR '']'' then Some ([v], r')
               else None))"
| "parse_members 0 s = None"
| "parse_members (Suc n) s =
     (case skip_ws s of
        [] \<Rightarrow> None
      | c # r \<Rightarrow>
          if c = CHR 0x22 then
            (case string_chars r of
               None \<Rightarrow> None
             | Some (k, r1) \<Rightarrow>
                 (case skip_ws r1 of
                    [] \<Rightarrow> None
                  | c1 # r2 \<Rightarrow>
                      if c1 = CHR '':'' then
                        (case parse_value n r2 of
                           None \<Rightarrow> None
                         | Some (v, r3) \<Rightarrow>
                             (case skip_ws r3 of
                                [] \<Rightarrow> None
                              | c3 # r4 \<Rightarrow>
                                  if c3 = CHR '','' then
                                    (case parse_members n r4 of
                                       None \<Rightarrow> None
                                     | Some (kvs, rest) \<Rightarrow> Some ((k, v) # kvs, rest))
                                  else if c3 = CHR ''}'' then Some ([(k, v)], r4)
                                  else None))
                      else None))
          else None)"

text \<open>
  \<^verbatim>\<open>JSON.parse(text)\<close>: one value with nothing but white space after it;
  \<open>None\<close> where \<^verbatim>\<open>JSON.parse\<close> throws a
  \<^verbatim>\<open>SyntaxError\<close>.
\<close>

definition JSON_parse :: "string \<Rightarrow> json option" where
  "JSON_parse text =
     (case parse_value (Suc (2 * length text)) text of
        None \<Rightarrow> None
      | Some (v, rest) \<Rightarrow> if skip_ws rest = [] then Some v else None)"

subsection \<open>Stored bytes as text\<close>

text \<open>
  \<^verbatim>\<open>buf.toString()\<close> on arbitrary bytes: well-formed UTF-8 is kept, and
  every maximal part of an ill-formed sequence becomes the replacement character
  U+FFFD, whose bytes are \<^verbatim>\<open>EF BF BD\<close>. The second byte of a three-byte
  or four-byte sequence has a narrower range after the lead bytes
  \<^verbatim>\<open>E0\<close>, \<^verbatim>\<open>ED\<close>, \<^verbatim>\<open>F0\<close> and
  \<^verbatim>\<open>F4\<close>; the bytes \<^verbatim>\<open>80\<close> to \<^verbatim>\<open>C1\<close>
  and \<^verbatim>\<open>F5\<close> to \<^verbatim>\<open>FF\<close> start no sequence.
\<close>

definition replacement :: string where
  "replacement = [CHR 0xEF, CHR 0xBF, CHR 0xBD]"

definition is_continuation :: "char \<Rightarrow> bool" where
  "is_continuation b = (0x80 \<le> (of_char b :: nat) \<and> (of_char b :: nat) \<le> 0xBF)"

definition second_byte_ok :: "char \<Rightarrow> char \<Rightarrow> bool" where
  "second_byte_ok b c =
     (let lo = (if b = CHR 0xE0 then 0xA0 else if b = CHR 0xF0 then 0x90 else 0x80 :: nat);
          hi = (if b = CHR 0xED then 0x9F else if b = CHR 0xF4 then 0x8F else 0xBF :: nat)
      in lo \<le> of_char c \<and> of_char c \<le> hi)"

fun toString_utf8 :: "string \<Rightarrow> string" where
  "toString_utf8 [] = []"
| "toString_utf8 (b # bs) =
     (if (of_char b :: nat) < 0x80 then b # toString_utf8 bs
      else if 0xC2 \<le> (of_char b :: nat) \<and> (of_char b :: nat) \<le> 0xDF then
        (case bs of
           [] \<Rightarrow> replacement
         | c # r \<Rightarrow>
             if is_continuation c then b # c # toString_utf8 r
             else replacement @ toString_utf8 bs)
      else if 0xE0 \<le> (of_char b :: nat) \<and> (of_char b :: nat) \<le> 0xEF then
        (case bs of
           [] \<Rightarrow> replacement
         | c # r \<Rightarrow>
             if second_byte_ok b c then
               (case r of
                  [] \<Rightarrow> replacement
                | d # r' \<Rightarrow>
                    if is_continuation d then b # c # d # toString_utf8 r'
                    else replacement @ toString_utf8 r)
             else replacement @ toString_utf8 bs)
      else if 0xF0 \<le> (of_char b :: nat) \<and> (of_char b :: nat) \<le> 0xF4 then
        (case bs of
           [] \<Rightarrow> replacement
         | c # r \<Rightarrow>
             if second_byte_ok b c then
               (case r of
                  [] \<Rightarrow> replacement
                | d # r' \<Rightarrow>
                    if is_continuation d then
                      (case r' of
                         [] \<Rightarrow> replacement
                       | e # r'' \<Rightarrow>
                           if is_continuation e then b # c # d # e # toString_utf8 r''
                           else replacement @ toString_utf8 r')
                    else replacement @ toString_utf8 r)
             else replacement @ toString_utf8 bs)
      else replacement @ toString_utf8 bs)"

text \<open>
  \<^verbatim>\<open>Buffer.from(str)\<close> stores the UTF-8 bytes of the string, which the
  string is identified with. \<open>strValue_of\<close> is the expression
  \<^verbatim>\<open>Buffer.from(result.value.value.toString()).toString("utf8")\<close> of the
  two loops over the range.
\<close>

definition Buffer_from :: "string \<Rightarrow> string" where
  "Buffer_from str = str"

definition strValue_of :: "string \<Rightarrow> string" where
  "strValue_of bytes = toString_utf8 (Buffer_from (toString_utf8 bytes))"

subsection \<open>Writing JSON text\<close>

text \<open>
  \<^verbatim>\<open>JSON.stringify\<close> on the values \<^verbatim>\<open>JSON.parse\<close>
  returns. A string is quoted as above, and a surrogate on its own is written as its
  \<^verbatim>\<open>\udxxx\<close> escape.
\<close>

definition surrogate_escape :: "char \<Rightarrow> char \<Rightarrow> string" where
  "surrogate_escape c d =
     (let u = 0xD000 + ((of_char c :: nat) - 0x80) * 64 + ((of_char d :: nat) - 0x80)
      in [CHR 0x5C, CHR ''u'', hex_digit (u div 4096 mod 16), hex_digit (u div 256 mod 16),
          hex_digit (u div 16 mod 16), hex_digit (u mod 16)])"

fun quote_chars :: "string \<Rightarrow> string" where
  "quote_chars (b # c # d # r) =
     (if b = CHR 0xED \<and> 0xA0 \<le> (of_char c :: nat) \<and> (of_char c :: nat) \<le> 0xBF \<and> is_continuation d
      then surrogate_escape c d @ quote_chars r
      else escape_char b @ quote_chars (c # d # r))"
| "quote_chars (b # r) = escape_char b @ quote_chars r"
| "quote_chars [] = []"

definition JSON_quote :: "string \<Rightarrow> string" where
  "JSON_quote s = CHR 0x22 # quote_chars s @ [CHR 0x22]"

text \<open>
  The own properties of an object are enumerated with the array indices first, in
  ascending numeric order, and the other keys after them in the order of their
  creation. An array index is the canonical decimal text of a number below
  \<^verbatim>\<open>2^32 - 1\<close>.
\<close>

definition digits_value :: "string \<Rightarrow> int" where
  "digits_value p = foldl (\<lambda>n c. 10 * n + (of_char c - 48)) 0 p"

definition array_index :: "string \<Rightarrow> int option" where
  "array_index p =
     (if p \<noteq> [] \<and> list_all is_digit p \<and> (p = ''0'' \<or> hd p \<noteq> CHR ''0'') \<and>
         digits_value p < 4294967295
      then Some (digits_value p) else None)"

definition OwnPropertyKeys :: "(string \<times> 'a) list \<Rightarrow> (string \<times> 'a) list" where
  "OwnPropertyKeys props =
     sort_key (\<lambda>kv. case array_index (fst kv) of Some i \<Rightarrow> i | None \<Rightarrow> 0)
       (filter (\<lambda>kv. array_index (fst kv) \<noteq> None) props) @
     filter (\<lambda>kv. array_index (fst kv) = None) props"

text \<open>
  A number is written as the text of its value; the parameter \<open>NumberToString\<close>
  gives that text from the literal. A literal too large for a number is infinite and
  is written \<^verbatim>\<open>null\<close>.
\<close>

definition number_text :: "(string \<Rightarrow> string) \<Rightarrow> string \<Rightarrow> string" where
  "number_text NumberToString lit =
     (if NumberToString lit = ''Infinity'' \<or> NumberToString lit = ''-Infinity'' then ''null''
      else NumberToString lit)"

fun JSON_stringify :: "(string \<Rightarrow> string) \<Rightarrow> json \<Rightarrow> string" where
  "JSON_stringify NumberToString JNull = ''null''"
| "JSON_stringify NumberToString (JBool b) = (if b then ''true'' else ''false'')"
| "JSON_stringify NumberToString (JNumber lit) = number_text NumberToString lit"
| "JSON_stringify NumberToString (JString s) = JSON_quote s"
| "JSON_stringify NumberToString (JArray elements) =
     ''['' @ join '','' (map (JSON_stringify NumberToString) elements) @ '']''"
| "JSON_stringify NumberToString (JObject props) =
     ''{'' @ join '',''
        (map (\<lambda>kv. JSON_quote (fst kv) @ '':'' @ snd kv)
           (OwnPropertyKeys (map (\<lambda>kv. (fst kv, JSON_stringify NumberToString (snd kv))) props))) @ ''}''"

subsection \<open>World State\<close>

text \<open>
  Modelled from the spec: the transaction context \<^verbatim>\<open>ctx.stub\<close> belongs to
  the ledger platform and is not part of the contract's sources. Sections 2 and 6 of the
  specification: World State is an ordered key-value map, keys are strings, values are
  byte sequences; it offers \<^verbatim>\<open>get(key) -> bytes-or-absent\<close>,
  \<^verbatim>\<open>put(key, bytes)\<close>, \<^verbatim>\<open>delete(key)\<close> and
  \<^verbatim>\<open>scan(startKey, endKey)\<close>, where an empty bound is no bound and the
  iteration follows the store's key order. The entries are kept in key order; a scan
  reads the state as it is when the scan is opened.
\<close>

type_synonym world_state = "(string \<times> string) list"

definition getState :: "world_state \<Rightarrow> string \<Rightarrow> string option" where
  "getState ctx key = map_of ctx key"

definition deleteState :: "world_state \<Rightarrow> string \<Rightarrow> world_state" where
  "deleteState ctx key = filter (\<lambda>kv. fst kv \<noteq> key) ctx"

definition putState :: "world_state \<Rightarrow> string \<Rightarrow> string \<Rightarrow> world_state" where
  "putState ctx key val = insort_key fst (key, val) (deleteState ctx key)"

definition getStateByRange :: "world_state \<Rightarrow> string \<Rightarrow> string \<Rightarrow> (string \<times> string) list" where
  "getStateByRange ctx startKey endKey =
     filter (\<lambda>kv. startKey \<le> fst kv \<and> (endKey = [] \<or> fst kv < endKey)) ctx"

subsection \<open>The transactions on one vote\<close>

text \<open>
  What a transaction throws: \<^verbatim>\<open>new Error(message)\<close> of the contract, or a
  \<^verbatim>\<open>TypeError\<close> of the language.
\<close>

datatype error = Error string | TypeError

text \<open>
  \<^verbatim>\<open>VoteExists\<close>: \<^verbatim>\<open>voteJSON && voteJSON.length > 0\<close>.
\<close>

definition VoteExists :: "world_state \<Rightarrow> string \<Rightarrow> (error + bool) \<times> world_state" where
  "VoteExists ctx voterID =
     (case getState ctx voterID of
        None \<Rightarrow> (Inr False, ctx)
      | Some voteJSON \<Rightarrow> (Inr (length voteJSON > 0), ctx))"

definition InitLedger :: "world_state \<Rightarrow> (error + unit) \<times> world_state" where
  "InitLedger ctx =
     (let votes =
        [\<lparr>VoterID = ''voter1'', CandidateID = ''candidate1'', Station = ''station1''\<rparr>,
         \<lparr>VoterID = ''voter2'', CandidateID = ''candidate2'', Station = ''station2''\<rparr>]
      in (Inr (), foldl (\<lambda>c vote. putState c (VoterID vote) (encode vote)) ctx votes))"

definition RegisterVote ::
  "world_state \<Rightarrow> string \<Rightarrow> string \<Rightarrow> string \<Rightarrow> (error + unit) \<times> world_state" where
  "RegisterVote ctx voterID candidateID station =
     (case VoteExists ctx voterID of
        (Inl e, ctx1) \<Rightarrow> (Inl e, ctx1)
      | (Inr exists, ctx1) \<Rightarrow>
          if exists then
            (Inl (Error (''The vote from voter '' @ voterID @ '' already exists'')), ctx1)
          else
            (let vote = \<lparr>VoterID = voterID, CandidateID = candidateID, Station = station\<rparr>
             in (Inr (), putState ctx1 voterID (encode vote))))"

definition ReadVote :: "world_state \<Rightarrow> string \<Rightarrow> (error + string) \<times> world_state" where
  "ReadVote ctx voterID =
     (case getState ctx voterID of
        None \<Rightarrow> (Inl (Error (''The vote from voter '' @ voterID @ '' does not exist'')), ctx)
      | Some voteJSON \<Rightarrow>
          if length voteJSON = 0 then
            (Inl (Error (''The vote from voter '' @ voterID @ '' does not exist'')), ctx)
          else (Inr voteJSON, ctx))"

definition UpdateVote ::
  "world_state \<Rightarrow> string \<Rightarrow> string \<Rightarrow> string \<Rightarrow> (error + unit) \<times> world_state" where
  "UpdateVote ctx voterID candidateID station =
     (case VoteExists ctx voterID of
        (Inl e, ctx1) \<Rightarrow> (Inl e, ctx1)
      | (Inr exists, ctx1) \<Rightarrow>
          if \<not> exists then
            (Inl (Error (''The vote from voter '' @ voterID @ '' does not exist'')), ctx1)
          else
            (let updatedVote = \<lparr>VoterID = voterID, CandidateID = candidateID, Station = station\<rparr>
             in (Inr (), putState ctx1 voterID (encode updatedVote))))"

definition DeleteVote :: "world_state \<Rightarrow> string \<Rightarrow> (error + unit) \<times> world_state" where
  "DeleteVote ctx voterID =
     (case VoteExists ctx voterID of
        (Inl e, ctx1) \<Rightarrow> (Inl e, ctx1)
      | (Inr exists, ctx1) \<Rightarrow>
          if \<not> exists then
            (Inl (Error (''The vote from voter '' @ voterID @ '' does not exist'')), ctx1)
          else (Inr (), deleteState ctx1 voterID))"

subsection \<open>The transactions over the whole range\<close>

text \<open>
  \<^verbatim>\<open>GetAllVotes\<close>: the loop over the iterator, with the array
  \<^verbatim>\<open>allResults\<close> it pushes to. A value on which
  \<^verbatim>\<open>JSON.parse\<close> throws stays in the array as the string it is. The
  transaction returns \<^verbatim>\<open>JSON.stringify(allResults)\<close>.
\<close>

fun GetAllVotes_loop :: "(string \<times> string) list \<Rightarrow> json list \<Rightarrow> json list" where
  "GetAllVotes_loop [] allResults = allResults"
| "GetAllVotes_loop (result # iterator) allResults =
     (let strValue = strValue_of (snd result);
          record = (case JSON_parse strValue of Some parsed \<Rightarrow> parsed | None \<Rightarrow> JString strValue)
      in GetAllVotes_loop iterator (allResults @ [record]))"

definition GetAllVotes ::
  "(string \<Rightarrow> string) \<Rightarrow> world_state \<Rightarrow> (error + string) \<times> world_state" where
  "GetAllVotes NumberToString ctx =
     (Inr (JSON_stringify NumberToString
             (JArray (GetAllVotes_loop (getStateByRange ctx [] []) []))), ctx)"

text \<open>\<^verbatim>\<open>DeleteAllVotes\<close>: one delete for each key the iterator yields.\<close>

fun DeleteAllVotes_loop :: "(string \<times> string) list \<Rightarrow> world_state \<Rightarrow> world_state" where
  "DeleteAllVotes_loop [] ctx = ctx"
| "DeleteAllVotes_loop (result # iterator) ctx =
     DeleteAllVotes_loop iterator (deleteState ctx (fst result))"

definition DeleteAllVotes :: "world_state \<Rightarrow> (error + unit) \<times> world_state" where
  "DeleteAllVotes ctx = (Inr (), DeleteAllVotes_loop (getStateByRange ctx [] []) ctx)"

subsection \<open>The tally\<close>

text \<open>
  The values the object \<^verbatim>\<open>allResults = {}\<close> of
  \<^verbatim>\<open>GetVoteStatistics\<close> can hold or inherit: a number (the counts are
  natural numbers), \<^verbatim>\<open>NaN\<close>, a string, a built-in function with its name,
  and the object \<^verbatim>\<open>Object.prototype\<close> itself. A property that is neither
  the object's own nor inherited reads as \<^verbatim>\<open>undefined\<close>, here \<open>None\<close>.
\<close>

datatype jsval = JSNumber nat | JSNaN | JSString string | JSFunction string | JSObjectPrototype

text \<open>
  The object literal \<^verbatim>\<open>{}\<close> inherits from
  \<^verbatim>\<open>Object.prototype\<close>: its methods, and the accessor
  \<^verbatim>\<open>__proto__\<close>, which reads as the prototype.
\<close>

definition Object_prototype :: "string \<Rightarrow> jsval option" where
  "Object_prototype p =
     (if p = ''__proto__'' then Some JSObjectPrototype
      else if p = ''constructor'' then Some (JSFunction ''Object'')
      else if p \<in> set [''__defineGetter__'', ''__defineSetter__'', ''hasOwnProperty'',
                         ''__lookupGetter__'', ''__lookupSetter__'', ''isPrototypeOf'',
                         ''propertyIsEnumerable'', ''toString'', ''valueOf'', ''toLocaleString'']
      then Some (JSFunction p)
      else None)"

text \<open>\<^verbatim>\<open>allResults[p]\<close> as a read: own properties first.\<close>

definition Get :: "(string \<times> jsval) list \<Rightarrow> string \<Rightarrow> jsval option" where
  "Get obj p = (case map_of obj p of Some v \<Rightarrow> Some v | None \<Rightarrow> Object_prototype p)"

text \<open>
  \<^verbatim>\<open>allResults[p] = v\<close> for a number or a string \<open>v\<close>: the setter of
  \<^verbatim>\<open>__proto__\<close> ignores such a value, every other key becomes or stays an
  own property.
\<close>

definition Set_property :: "(string \<times> jsval) list \<Rightarrow> string \<Rightarrow> jsval \<Rightarrow> (string \<times> jsval) list" where
  "Set_property obj p v = (if p = ''__proto__'' then obj else AList.update p v obj)"

fun ToBoolean :: "jsval option \<Rightarrow> bool" where
  "ToBoolean None = False"
| "ToBoolean (Some (JSNumber n)) = (n \<noteq> 0)"
| "ToBoolean (Some JSNaN) = False"
| "ToBoolean (Some (JSString s)) = (s \<noteq> [])"
| "ToBoolean (Some (JSFunction name)) = True"
| "ToBoolean (Some JSObjectPrototype) = True"

text \<open>
  \<^verbatim>\<open>x + 1\<close>: addition on a number, concatenation with
  \<^verbatim>\<open>"1"\<close> on a string and on the text an object converts to.
\<close>

fun plus_one :: "jsval option \<Rightarrow> jsval" where
  "plus_one None = JSNaN"
| "plus_one (Some (JSNumber n)) = JSNumber (n + 1)"
| "plus_one (Some JSNaN) = JSNaN"
| "plus_one (Some (JSString s)) = JSString (s @ ''1'')"
| "plus_one (Some (JSFunction name)) = JSString (''function '' @ name @ ''() { [native code] }'' @ ''1'')"
| "plus_one (Some JSObjectPrototype) = JSString (''[object Object]'' @ ''1'')"

text \<open>
  \<^verbatim>\<open>vote.CandidateID\<close> on a parsed value: an object's own property
  (no prototype has one of that name), \<^verbatim>\<open>undefined\<close> on every other
  value, and a \<^verbatim>\<open>TypeError\<close> on \<^verbatim>\<open>null\<close>.
\<close>

fun get_CandidateID :: "json \<Rightarrow> error + json option" where
  "get_CandidateID JNull = Inl TypeError"
| "get_CandidateID (JObject props) = Inr (map_of props ''CandidateID'')"
| "get_CandidateID v = Inr None"

text \<open>
  The string a parsed value converts to when it is used as a property key. The text of
  a number is a function of its literal that the model takes as the parameter
  \<open>NumberToString\<close>. An array joins its elements with commas,
  \<^verbatim>\<open>null\<close> as the empty string. An object converts with the inherited
  \<^verbatim>\<open>toString\<close>; an own property of that name is not callable, and the
  conversion throws.
\<close>

fun ToString :: "(string \<Rightarrow> string) \<Rightarrow> json \<Rightarrow> error + string"
  and ToString_elements :: "(string \<Rightarrow> string) \<Rightarrow> json list \<Rightarrow> error + string list"
where
  "ToString NumberToString JNull = Inr ''null''"
| "ToString NumberToString (JBool b) = Inr (if b then ''true'' else ''false'')"
| "ToString NumberToString (JNumber lit) = Inr (NumberToString lit)"
| "ToString NumberToString (JString s) = Inr s"
| "ToString NumberToString (JArray elements) =
     (case ToString_elements NumberToString elements of
        Inl e \<Rightarrow> Inl e
      | Inr strs \<Rightarrow> Inr (join '','' strs))"
| "ToString NumberToString (JObject props) =
     (case map_of props ''toString'' of
        None \<Rightarrow> Inr ''[object Object]''
      | Some f \<Rightarrow> Inl TypeError)"
| "ToString_elements NumberToString [] = Inr []"
| "ToString_elements NumberToString (x # xs) =
     (case (if x = JNull then Inr [] else ToString NumberToString x) of
        Inl e \<Rightarrow> Inl e
      | Inr str \<Rightarrow>
          (case ToString_elements NumberToString xs of
             Inl e \<Rightarrow> Inl e
           | Inr strs \<Rightarrow> Inr (str # strs)))"

definition ToPropertyKey :: "(string \<Rightarrow> string) \<Rightarrow> json option \<Rightarrow> error + string" where
  "ToPropertyKey NumberToString v =
     (case v of None \<Rightarrow> Inr ''undefined'' | Some j \<Rightarrow> ToString NumberToString j)"

text \<open>
  The two statements that count a vote:
  \<^verbatim>\<open>if (!allResults[k]) { allResults[k] = 0; }\<close> and
  \<^verbatim>\<open>allResults[k] += 1\<close>.
\<close>

definition count_vote :: "(string \<times> jsval) list \<Rightarrow> string \<Rightarrow> (string \<times> jsval) list" where
  "count_vote allResults k =
     (let allResults1 =
        (if \<not> ToBoolean (Get allResults k) then Set_property allResults k (JSNumber 0)
         else allResults)
      in Set_property allResults1 k (plus_one (Get allResults1 k)))"

text \<open>
  \<^verbatim>\<open>GetVoteStatistics\<close>: the loop over the iterator, with the object
  \<^verbatim>\<open>allResults\<close> it counts in. Only \<^verbatim>\<open>JSON.parse\<close> stands in
  the \<^verbatim>\<open>try\<close> block. The transaction returns the JSON text of the object;
  the function returns the object, its own properties in the order of their creation.
\<close>

fun GetVoteStatistics_loop ::
  "(string \<Rightarrow> string) \<Rightarrow> (string \<times> string) list \<Rightarrow> (string \<times> jsval) list \<Rightarrow>
   error + (string \<times> jsval) list" where
  "GetVoteStatistics_loop NumberToString [] allResults = Inr allResults"
| "GetVoteStatistics_loop NumberToString (result # iterator) allResults =
     (let strValue = strValue_of (snd result)
      in case JSON_parse strValue of
           None \<Rightarrow> GetVoteStatistics_loop NumberToString iterator allResults
         | Some vote \<Rightarrow>
             (case get_CandidateID vote of
                Inl e \<Rightarrow> Inl e
              | Inr candidate \<Rightarrow>
                  (case ToPropertyKey NumberToString candidate of
                     Inl e \<Rightarrow> Inl e
                   | Inr k \<Rightarrow>
                       GetVoteStatistics_loop NumberToString iterator (count_vote allResults k))))"

definition GetVoteStatistics ::
  "(string \<Rightarrow> string) \<Rightarrow> world_state \<Rightarrow> (error + (string \<times> jsval) list) \<times> world_state" where
  "GetVoteStatistics NumberToString ctx =
     (GetVoteStatistics_loop NumberToString (getStateByRange ctx [] []) [], ctx)"

subsection \<open>Records that differ in key order only\<close>

text \<open>
  Two records have the same field values in possibly different key orders, at every
  nesting level: the fields of the second are those of the first in some order, each
  with a value that is again the same up to key order. Field names are distinct, as the
  property names of an object are.
\<close>

inductive same_fields :: "record_value \<Rightarrow> record_value \<Rightarrow> bool" where
  same_Str: "same_fields (Str s) (Str s)"
| same_Rec: "list_all2 (\<lambda>a b. fst a = fst b \<and> same_fields (snd a) (snd b)) xs ys \<Longrightarrow>
     mset zs = mset ys \<Longrightarrow> distinct (map fst xs) \<Longrightarrow> same_fields (Rec xs) (Rec zs)"

subsection \<open>The candidate a stored value names\<close>

text \<open>
  A stored value names the candidate \<open>c\<close> when \<^verbatim>\<open>JSON.parse\<close> reads it as
  an object whose property \<^verbatim>\<open>CandidateID\<close> is the string \<open>c\<close>. Every
  value the contract writes names the candidate of its vote.
\<close>

definition candidate_of :: "string \<Rightarrow> string option" where
  "candidate_of strValue =
     (case JSON_parse strValue of
        Some (JObject props) \<Rightarrow>
          (case map_of props ''CandidateID'' of Some (JString c) \<Rightarrow> Some c | _ \<Rightarrow> None)
      | _ \<Rightarrow> None)"

text \<open>
  The invariant of the tally loop on such values: \<^verbatim>\<open>allResults\<close> holds
  positive numbers only, under keys it does not inherit; \<open>count_in\<close> reads a key's
  number, zero when the key is not there.
\<close>

definition counts_only :: "(string \<times> jsval) list \<Rightarrow> bool" where
  "counts_only obj =
     (\<forall>kv \<in> set obj. Object_prototype (fst kv) = None \<and> (\<exists>n. 0 < n \<and> snd kv = JSNumber n))"

definition count_in :: "(string \<times> jsval) list \<Rightarrow> string \<Rightarrow> nat" where
  "count_in obj c = (case map_of obj c of Some (JSNumber n) \<Rightarrow> n | _ \<Rightarrow> 0)"

section \<open>Properties\<close>

subsection \<open>World State\<close>

lemma getStateByRange_all: "getStateByRange ctx [] [] = ctx"
  by (simp add: getStateByRange_def)

lemma getState_deleteState:
  "getState (deleteState ctx k) k' = (if k' = k then None else getState ctx k')"
  by (induction ctx) (auto simp: getState_def deleteState_def)

lemma map_of_insort_key:
  "map_of (insort_key fst (k, v) xs) k' = (if k' = k then Some v else map_of xs k')"
  if "k \<notin> fst ` set xs"
  using that by (induction xs) auto

lemma getState_putState:
  "getState (putState ctx k v) k' = (if k' = k then Some v else getState ctx k')"
proof -
  have "k \<notin> fst ` set (deleteState ctx k)"
    by (auto simp: deleteState_def)
  then have "map_of (insort_key fst (k, v) (deleteState ctx k)) k'
      = (if k' = k then Some v else map_of (deleteState ctx k) k')"
    by (rule map_of_insort_key)
  then show ?thesis
    using getState_deleteState [of ctx k k'] by (simp add: putState_def getState_def)
qed

lemma filter_putState:
  "filter (\<lambda>kv. P (fst kv)) (putState ctx k v) = filter (\<lambda>kv. P (fst kv)) ctx" if "\<not> P k"
proof -
  have "filter (\<lambda>kv. P (fst kv)) (putState ctx k v) = filter (\<lambda>kv. P (fst kv)) (deleteState ctx k)"
    using that by (simp add: putState_def filter_insort_triv)
  also have "\<dots> = filter (\<lambda>kv. P (fst kv)) ctx"
    using that by (auto simp: deleteState_def intro: filter_cong)
  finally show ?thesis .
qed

subsection \<open>A quoted string reads back\<close>

lemma hex_value_hex_digit: "d < 16 \<Longrightarrow> hex_value (hex_digit d) = Some d"
proof -
  have "\<forall>d\<in>set [0..<16]. hex_value (hex_digit d) = Some d"
    by code_simp
  then show "d < 16 \<Longrightarrow> hex_value (hex_digit d) = Some d"
    by simp
qed

lemma hex4_value_UnicodeEscape:
  "hex4_value (drop 2 (UnicodeEscape c) @ rest) = Some (of_char c)"
proof -
  define n :: nat where "n = of_char c"
  have n: "n < 256"
    by (simp add: n_def)
  then have hi: "n div 4096 = 0" "n div 256 = 0" and lo: "n div 16 < 16"
    by simp_all
  have "UnicodeEscape c =
      [CHR 0x5C, CHR ''u'', hex_digit 0, hex_digit 0, hex_digit (n div 16), hex_digit (n mod 16)]"
    using hi lo by (simp add: UnicodeEscape_def n_def [symmetric])
  then show ?thesis
    using lo by (simp add: hex4_value_def hex_value_hex_digit n_def [symmetric])
qed

lemma unicode_escape_UnicodeEscape:
  "unicode_escape (drop 2 (UnicodeEscape c) @ rest) = Some ([c], 4)"
  if "(of_char c :: nat) < 0x20"
  using that hex4_value_UnicodeEscape [of c rest]
  by (simp add: unicode_escape_def utf8_def)

lemma escape_char_control:
  assumes "(of_char c :: nat) < 0x20"
    and "c \<noteq> CHR 0x08" "c \<noteq> CHR 0x09" "c \<noteq> CHR 0x0A" "c \<noteq> CHR 0x0C" "c \<noteq> CHR 0x0D"
  shows "escape_char c = CHR 0x5C # CHR ''u'' # drop 2 (UnicodeEscape c)"
proof -
  have "c \<noteq> CHR 0x22" "c \<noteq> CHR 0x5C"
    using assms(1) by auto
  then have "escape_char c = UnicodeEscape c"
    using assms by (simp add: escape_char_def)
  then show ?thesis
    by (simp add: UnicodeEscape_def)
qed

lemma string_chars_control:
  assumes "(of_char c :: nat) < 0x20"
    and "c \<noteq> CHR 0x08" "c \<noteq> CHR 0x09" "c \<noteq> CHR 0x0A" "c \<noteq> CHR 0x0C" "c \<noteq> CHR 0x0D"
  shows "string_chars (escape_char c @ rest) =
     (case string_chars rest of None \<Rightarrow> None | Some (str, rest') \<Rightarrow> Some (c # str, rest'))"
proof -
  have l: "length (drop 2 (UnicodeEscape c)) = 4"
    by (simp add: UnicodeEscape_def)
  show ?thesis
    unfolding escape_char_control [OF assms]
    using unicode_escape_UnicodeEscape [OF assms(1), of rest] l
    by (simp split: option.splits)
qed

lemma string_chars_short_escape:
  assumes "c = CHR 0x08 \<or> c = CHR 0x09 \<or> c = CHR 0x0A \<or> c = CHR 0x0C \<or> c = CHR 0x0D
           \<or> c = CHR 0x22 \<or> c = CHR 0x5C"
  shows "string_chars (escape_char c @ rest) =
     (case string_chars rest of None \<Rightarrow> None | Some (str, rest') \<Rightarrow> Some (c # str, rest'))"
  using assms
  by (elim disjE) (simp_all add: escape_char_def unescape_def split: option.splits)

lemma string_chars_plain:
  assumes "\<not> (of_char c :: nat) < 0x20" and "c \<noteq> CHR 0x22" and "c \<noteq> CHR 0x5C"
  shows "string_chars (escape_char c @ rest) =
     (case string_chars rest of None \<Rightarrow> None | Some (str, rest') \<Rightarrow> Some (c # str, rest'))"
proof -
  have "c \<noteq> CHR 0x08" "c \<noteq> CHR 0x09" "c \<noteq> CHR 0x0A" "c \<noteq> CHR 0x0C" "c \<noteq> CHR 0x0D"
    using assms(1) by auto
  then have "escape_char c = [c]"
    using assms by (simp add: escape_char_def)
  then show ?thesis
    using assms by (simp split: option.splits)
qed

lemma string_chars_escape_char:
  "string_chars (escape_char c @ rest) =
     (case string_chars rest of None \<Rightarrow> None | Some (str, rest') \<Rightarrow> Some (c # str, rest'))"
  using string_chars_control [of c rest] string_chars_short_escape [of c rest]
    string_chars_plain [of c rest]
  by blast

lemma string_chars_quoted:
  "string_chars (concat (map escape_char s) @ CHR 0x22 # rest) = Some (s, rest)"
  by (induction s) (simp_all add: string_chars_escape_char)

lemma parse_value_string:
  "parse_value (Suc n) (QuoteJSONString s @ rest) = Some (JString s, rest)"
  by (simp add: QuoteJSONString_def skip_ws_def is_ws_def string_chars_quoted)

subsection \<open>An encoded vote reads back\<close>

lemma encode_text:
  "encode vote =
     ''{'' @ QuoteJSONString ''CandidateID'' @ '':'' @ QuoteJSONString (CandidateID vote) @ '','' @
     QuoteJSONString ''Station'' @ '':'' @ QuoteJSONString (Station vote) @ '','' @
     QuoteJSONString ''VoterID'' @ '':'' @ QuoteJSONString (VoterID vote) @ ''}''"
  by (simp add: encode_def vote_object_def join_def)

lemma encode_nonempty: "encode vote \<noteq> []"
  by (simp add: encode_text)

lemma parse_members_last:
  "parse_members (Suc (Suc n)) (QuoteJSONString k @ '':'' @ QuoteJSONString s @ ''}'' @ rest) =
     Some ([(k, JString s)], rest)"
proof -
  have "string_chars (concat (map escape_char k) @ CHR 0x22 # '':'' @ QuoteJSONString s @ ''}'' @ rest)
        = Some (k, '':'' @ QuoteJSONString s @ ''}'' @ rest)"
    by (rule string_chars_quoted)
  moreover have "parse_value (Suc n) (QuoteJSONString s @ ''}'' @ rest) = Some (JString s, ''}'' @ rest)"
    by (rule parse_value_string)
  ultimately show ?thesis
    by (simp add: QuoteJSONString_def skip_ws_def is_ws_def)
qed

lemma parse_members_next:
  "parse_members (Suc (Suc n)) (QuoteJSONString k @ '':'' @ QuoteJSONString s @ '','' @ rest) =
     (case parse_members (Suc n) rest of
        None \<Rightarrow> None
      | Some (kvs, rest') \<Rightarrow> Some ((k, JString s) # kvs, rest'))"
proof -
  have "string_chars (concat (map escape_char k) @ CHR 0x22 # '':'' @ QuoteJSONString s @ '','' @ rest)
        = Some (k, '':'' @ QuoteJSONString s @ '','' @ rest)"
    by (rule string_chars_quoted)
  moreover have "parse_value (Suc n) (QuoteJSONString s @ '','' @ rest) = Some (JString s, '','' @ rest)"
    by (rule parse_value_string)
  ultimately show ?thesis
    by (simp add: QuoteJSONString_def skip_ws_def is_ws_def)
qed

lemma parse_value_object:
  assumes "parse_members n (CHR 0x22 # r) = Some (members, rest)"
  shows "parse_value (Suc n) (CHR ''{'' # CHR 0x22 # r) = Some (JObject (object_of members), rest)"
  using assms by (simp add: skip_ws_def is_ws_def)

lemma parse_value_encode:
  "parse_value (Suc (Suc (Suc (Suc (Suc n))))) (encode vote) =
     Some (JObject [(''CandidateID'', JString (CandidateID vote)), (''Station'', JString (Station vote)),
                    (''VoterID'', JString (VoterID vote))], [])"
proof -
  let ?members = "QuoteJSONString ''CandidateID'' @ '':'' @ QuoteJSONString (CandidateID vote) @ '','' @
     QuoteJSONString ''Station'' @ '':'' @ QuoteJSONString (Station vote) @ '','' @
     QuoteJSONString ''VoterID'' @ '':'' @ QuoteJSONString (VoterID vote) @ ''}'' @ []"
  let ?props = "[(''CandidateID'', JString (CandidateID vote)), (''Station'', JString (Station vote)),
             (''VoterID'', JString (VoterID vote))]"
  have m: "parse_members (Suc (Suc (Suc (Suc n)))) ?members = Some (?props, [])"
    by (simp only: parse_members_next parse_members_last option.case prod.case)
  obtain r where q: "?members = CHR 0x22 # r"
    by (simp add: QuoteJSONString_def)
  have e: "encode vote = CHR ''{'' # ?members"
    by (simp add: encode_text)
  have o: "object_of ?props = ?props"
    by (simp add: object_of_def)
  have "parse_value (Suc (Suc (Suc (Suc (Suc n))))) (CHR ''{'' # CHR 0x22 # r) =
      Some (JObject (object_of ?props), [])"
    using m unfolding q by (rule parse_value_object)
  then show ?thesis
    unfolding e q o .
qed

lemma fuel_five: "5 \<le> m \<Longrightarrow> \<exists>n. m = Suc (Suc (Suc (Suc (Suc n))))"
  by (rule exI [of _ "m - 5"]) simp

lemma JSON_parse_encode:
  "JSON_parse (encode vote) =
     Some (JObject [(''CandidateID'', JString (CandidateID vote)), (''Station'', JString (Station vote)),
                    (''VoterID'', JString (VoterID vote))])"
proof -
  have "5 \<le> Suc (2 * length (encode vote))"
    by (simp add: encode_text QuoteJSONString_def)
  then obtain n where "Suc (2 * length (encode vote)) = Suc (Suc (Suc (Suc (Suc n))))"
    using fuel_five by blast
  then show ?thesis
    by (simp add: JSON_parse_def parse_value_encode skip_ws_def del: parse_value.simps)
qed

lemma encode_voter1:
  \<open>encode \<lparr>VoterID = ''voter1'', CandidateID = ''candidate1'', Station = ''station1''\<rparr> =
     ''{"CandidateID":"candidate1","Station":"station1","VoterID":"voter1"}''\<close>
  by (simp add: encode_text QuoteJSONString_def escape_char_def)

lemma encode_voter2:
  \<open>encode \<lparr>VoterID = ''voter2'', CandidateID = ''candidate2'', Station = ''station2''\<rparr> =
     ''{"CandidateID":"candidate2","Station":"station2","VoterID":"voter2"}''\<close>
  by (simp add: encode_text QuoteJSONString_def escape_char_def)

subsection \<open>Sorting fields with distinct names\<close>

lemma distinct_keys_perm:
  assumes "mset xs = mset ys" and "distinct (map f ys)"
  shows "distinct (map f xs)"
proof -
  have "mset (map f xs) = mset (map f ys)"
    using assms(1) by simp
  then show ?thesis
    using assms(2) mset_eq_imp_distinct_iff by blast
qed

lemma sort_key_distinct_perm:
  assumes "mset xs = mset ys" and "distinct (map fst ys)"
  shows "sort_key fst xs = sort_key fst ys"
proof (rule map_sorted_distinct_set_unique [where f = fst])
  have s: "set xs = set ys"
    using assms(1) by (rule mset_eq_setD)
  have "inj_on fst (set ys)"
    using assms(2) by (simp add: distinct_map)
  then show "inj_on fst (set (sort_key fst xs) \<union> set (sort_key fst ys))"
    using s by simp
  show "sorted (map fst (sort_key fst xs))" "sorted (map fst (sort_key fst ys))"
    by simp_all
  show "distinct (map fst (sort_key fst ys))"
    using assms(2) by (rule distinct_keys_perm [rotated]) simp
  have "distinct (map fst xs)"
    using assms by (rule distinct_keys_perm)
  then show "distinct (map fst (sort_key fst xs))"
    by (rule distinct_keys_perm [rotated]) simp
  show "set (sort_key fst xs) = set (sort_key fst ys)"
    using s by simp
qed

lemma same_fields_sortKeysRecursive:
  "same_fields r1 r2 \<Longrightarrow> sortKeysRecursive r1 = sortKeysRecursive r2"
proof (induction rule: same_fields.induct)
  case (same_Str s)
  show ?case by simp
next
  case (same_Rec xs ys zs)
  let ?f = "\<lambda>kv. (fst kv, sortKeysRecursive (snd kv))"
  have "list_all2 (\<lambda>a b. ?f a = ?f b) xs ys"
    using same_Rec.IH by (rule list_all2_mono) simp
  then have xy: "map ?f xs = map ?f ys"
    by (induction rule: list_all2_induct) simp_all
  have k: "map fst (map ?f ys) = map fst xs"
    unfolding xy [symmetric] by (simp add: comp_def)
  have "mset (map ?f zs) = mset (map ?f ys)"
    using \<open>mset zs = mset ys\<close> by simp
  moreover have "distinct (map fst (map ?f ys))"
    unfolding k by (rule \<open>distinct (map fst xs)\<close>)
  ultimately have "sort_key fst (map ?f zs) = sort_key fst (map ?f ys)"
    by (rule sort_key_distinct_perm)
  then show ?case
    by (simp add: xy)
qed

subsection \<open>The bound on nested calls never cuts a parse short\<close>

text \<open>
  Every parser returns strictly less text than it was given, so the number of nested
  calls a parse needs is bounded by the length of the text: whatever some bound reads
  from a text, the bound of \<open>JSON_parse\<close> reads as well.
\<close>

lemma skip_ws_length: "skip_ws s = c # r \<Longrightarrow> length r < length s"
proof -
  assume "skip_ws s = c # r"
  then have "Suc (length r) = length (dropWhile is_ws s)"
    by (simp add: skip_ws_def)
  then show ?thesis
    using length_dropWhile_le [of is_ws s] by simp
qed

lemma string_chars_length: "string_chars s = Some (str, r) \<Longrightarrow> length r < length s"
proof (induction s arbitrary: str r rule: string_chars.induct)
  case 1
  then show ?case by simp
next
  case (2 c cs)
  show ?case
  proof (cases "c = CHR 0x22")
    case True
    then show ?thesis using "2.prems" by simp
  next
    case q: False
    show ?thesis
    proof (cases "c = CHR 0x5C")
      case True
      then obtain e t where cs: "cs = e # t"
        using "2.prems" q by (cases cs) simp_all
      show ?thesis
      proof (cases "e = CHR ''u''")
        case u: True
        then obtain bytes k str' where ue: "unicode_escape t = Some (bytes, k)"
          and sc: "string_chars (drop k t) = Some (str', r)"
          using "2.prems" q True cs by (auto split: option.splits)
        have "length r < length (drop k t)"
          using "2.IH"(1) [OF q True cs u ue _ sc] by simp
        then show ?thesis
          using cs by simp
      next
        case nu: False
        then obtain d str' where un: "unescape e = Some d"
          and sc: "string_chars t = Some (str', r)"
          using "2.prems" q True cs by (auto split: option.splits)
        have "length r < length t"
          using "2.IH"(2) [OF q True cs nu un sc] .
        then show ?thesis
          using cs by simp
      qed
    next
      case b: False
      then obtain str' where sc: "string_chars cs = Some (str', r)" and nc: "\<not> (of_char c :: nat) < 0x20"
        using "2.prems" q by (auto split: option.splits if_splits)
      have "length r < length cs"
        using "2.IH"(3) [OF q b nc sc] .
      then show ?thesis by simp
    qed
  qed
qed


lemma after_prefix_length:
  "after_prefix name s = Some r \<Longrightarrow> name \<noteq> [] \<Longrightarrow> length r < length s"
proof -
  assume a: "after_prefix name s = Some r" and n: "name \<noteq> []"
  then have t: "take (length name) s = name" and r: "r = drop (length name) s"
    by (auto simp: after_prefix_def split: if_splits)
  have "length name \<le> length s"
    using t by (metis length_take min.cobounded1)
  then show ?thesis
    using n r by (cases name) simp_all
qed

lemma frac_part_length: "frac_part s = (f, r) \<Longrightarrow> length r \<le> length s"
  using length_dropWhile_le [of is_digit "tl s"]
  by (auto simp: frac_part_def split: list.splits if_splits)

lemma exp_digits_length: "exp_digits s mark t = (e, r) \<Longrightarrow> length t \<le> length s \<Longrightarrow> length r \<le> length s"
  using length_dropWhile_le [of is_digit t]
  by (auto simp: exp_digits_def split: if_splits)

lemma exp_part_length: "exp_part s = (e, r) \<Longrightarrow> length r \<le> length s"
  by (auto simp: exp_part_def split: list.splits if_splits dest!: exp_digits_length)

lemma int_part_length: "int_part s = Some (i, r) \<Longrightarrow> length r < length s"
  using length_dropWhile_le [of is_digit "tl s"]
  by (auto simp: int_part_def split: list.splits if_splits)

lemma number_literal_length: "number_literal s = Some (lit, r) \<Longrightarrow> length r < length s"
proof -
  assume a: "number_literal s = Some (lit, r)"
  obtain sign s1 where s1: "(case s of c # r \<Rightarrow> if c = CHR ''-'' then ([c], r) else ([], s) | [] \<Rightarrow> ([], s)) = (sign, s1)"
    by (cases "(case s of c # r \<Rightarrow> if c = CHR ''-'' then ([c], r) else ([], s) | [] \<Rightarrow> ([], s))") simp
  then have l1: "length s1 \<le> length s"
    by (auto split: list.splits if_splits)
  obtain i s2 where i: "int_part s1 = Some (i, s2)"
    using a s1 by (auto simp: number_literal_def split: option.splits)
  obtain f s3 where f: "frac_part s2 = (f, s3)"
    by (cases "frac_part s2") simp
  obtain e s4 where e: "exp_part s3 = (e, s4)"
    by (cases "exp_part s3") simp
  have "r = s4"
    using a s1 i f e by (simp add: number_literal_def)
  then show ?thesis
    using l1 int_part_length [OF i] frac_part_length [OF f] exp_part_length [OF e] by simp
qed


lemma parse_length:
  "(\<forall>s v r. parse_value n s = Some (v, r) \<longrightarrow> length r < length s) \<and>
   (\<forall>s vs r. parse_elements n s = Some (vs, r) \<longrightarrow> length r < length s) \<and>
   (\<forall>s kvs r. parse_members n s = Some (kvs, r) \<longrightarrow> length r < length s)"
proof (induction n)
  case 0
  show ?case by simp
next
  case (Suc n)
  then have v: "\<And>s v r. parse_value n s = Some (v, r) \<Longrightarrow> length r < length s"
    and e: "\<And>s vs r. parse_elements n s = Some (vs, r) \<Longrightarrow> length r < length s"
    and m: "\<And>s kvs r. parse_members n s = Some (kvs, r) \<Longrightarrow> length r < length s"
    by blast+
  have "length r < length s" if "parse_value (Suc n) s = Some (v, r)" for s v r
    using that
    by (auto split: list.splits if_splits option.splits
        dest!: skip_ws_length m e string_chars_length after_prefix_length number_literal_length)
  moreover have "length r < length s" if "parse_elements (Suc n) s = Some (vs, r)" for s vs r
    using that
    by (auto split: list.splits if_splits option.splits dest!: skip_ws_length v e)
  moreover have "length r < length s" if "parse_members (Suc n) s = Some (kvs, r)" for s kvs r
    using that
    by (auto split: list.splits if_splits option.splits dest!: skip_ws_length v m string_chars_length)
  ultimately show ?case
    by blast
qed


lemma parse_value_more_fuel:
  assumes ms: "\<And>t x. length t < length s \<Longrightarrow> parse_members n t = Some x \<Longrightarrow> parse_members m t = Some x"
    and es: "\<And>t x. length t < length s \<Longrightarrow> parse_elements n t = Some x \<Longrightarrow> parse_elements m t = Some x"
    and p: "parse_value (Suc n) s = Some (v, r)"
  shows "parse_value (Suc m) s = Some (v, r)"
proof -
  obtain c r0 where sk: "skip_ws s = c # r0"
    using p by (cases "skip_ws s") simp_all
  have l0: "length r0 < length s"
    using sk by (rule skip_ws_length)
  show ?thesis
  proof (cases "c = CHR ''{'' \<or> c = CHR ''[''")
    case False
    then show ?thesis
      using p sk by simp
  next
    case True
    obtain d r' where sk': "skip_ws r0 = d # r'"
      using p sk True by (cases "skip_ws r0") auto
    have "length r' < length r0"
      using sk' by (rule skip_ws_length)
    then have l: "length (d # r') < length s"
      using l0 by simp
    show ?thesis
    proof (cases "c = CHR ''{''")
      case obj: True
      show ?thesis
      proof (cases "d = CHR ''}''")
        case True
        then show ?thesis
          using p sk sk' obj by simp
      next
        case False
        then obtain x where x: "parse_members n (d # r') = Some x"
          using p sk sk' obj by (cases "parse_members n (d # r')") simp_all
        then have "parse_members m (d # r') = Some x"
          using l by (rule ms [rotated])
        then show ?thesis
          using p x sk sk' obj False by simp
      qed
    next
      case nobj: False
      then have arr: "c = CHR ''[''"
        using True by simp
      show ?thesis
      proof (cases "d = CHR '']''")
        case True
        then show ?thesis
          using p sk sk' arr by simp
      next
        case False
        then obtain x where x: "parse_elements n (d # r') = Some x"
          using p sk sk' arr by (cases "parse_elements n (d # r')") simp_all
        then have "parse_elements m (d # r') = Some x"
          using l by (rule es [rotated])
        then show ?thesis
          using p x sk sk' arr False by simp
      qed
    qed
  qed
qed


lemma parse_value_length: "parse_value n s = Some (v, r) \<Longrightarrow> length r < length s"
  using parse_length [of n] by blast

lemma parse_elements_more_fuel:
  assumes vs: "\<And>x. parse_value n s = Some x \<Longrightarrow> parse_value m s = Some x"
    and es: "\<And>t x. Suc (length t) < length s \<Longrightarrow> parse_elements n t = Some x \<Longrightarrow> parse_elements m t = Some x"
    and p: "parse_elements (Suc n) s = Some (elements, r)"
  shows "parse_elements (Suc m) s = Some (elements, r)"
proof -
  obtain v r1 where v: "parse_value n s = Some (v, r1)"
    using p by (cases "parse_value n s") auto
  then have v': "parse_value m s = Some (v, r1)"
    by (rule vs)
  have l1: "length r1 < length s"
    using v by (rule parse_value_length)
  obtain c r' where sk: "skip_ws r1 = c # r'"
    using p v by (cases "skip_ws r1") simp_all
  have l: "Suc (length r') < length s"
    using skip_ws_length [OF sk] l1 by simp
  show ?thesis
  proof (cases "c = CHR '',''")
    case True
    then obtain x where x: "parse_elements n r' = Some x"
      using p v sk by (cases "parse_elements n r'") simp_all
    then have "parse_elements m r' = Some x"
      using l by (rule es [rotated])
    then show ?thesis
      using p v v' sk x True by simp
  next
    case False
    then show ?thesis
      using p v v' sk by simp
  qed
qed

lemma parse_members_more_fuel:
  assumes vs: "\<And>t x. length t < length s \<Longrightarrow> parse_value n t = Some x \<Longrightarrow> parse_value m t = Some x"
    and ms: "\<And>t x. Suc (length t) < length s \<Longrightarrow> parse_members n t = Some x \<Longrightarrow> parse_members m t = Some x"
    and p: "parse_members (Suc n) s = Some (members, r)"
  shows "parse_members (Suc m) s = Some (members, r)"
proof -
  obtain c r0 where sk: "skip_ws s = c # r0"
    using p by (cases "skip_ws s") simp_all
  have q: "c = CHR 0x22"
    using p sk by (simp split: if_splits)
  obtain k r1 where k: "string_chars r0 = Some (k, r1)"
    using p sk q by (cases "string_chars r0") auto
  obtain c1 r2 where sk1: "skip_ws r1 = c1 # r2"
    using p sk q k by (cases "skip_ws r1") simp_all
  have colon: "c1 = CHR '':''"
    using p sk q k sk1 by (simp split: if_splits)
  obtain v r3 where v: "parse_value n r2 = Some (v, r3)"
    using p sk q k sk1 colon by (cases "parse_value n r2") auto
  have l2: "length r2 < length s"
    using skip_ws_length [OF sk] string_chars_length [OF k] skip_ws_length [OF sk1] by simp
  have v': "parse_value m r2 = Some (v, r3)"
    using l2 v by (rule vs)
  obtain c3 r4 where sk3: "skip_ws r3 = c3 # r4"
    using p sk q k sk1 colon v by (cases "skip_ws r3") simp_all
  have l4: "Suc (length r4) < length s"
    using l2 parse_value_length [OF v] skip_ws_length [OF sk3] by simp
  show ?thesis
  proof (cases "c3 = CHR '',''")
    case True
    then obtain x where x: "parse_members n r4 = Some x"
      using p sk q k sk1 colon v sk3 by (cases "parse_members n r4") simp_all
    then have "parse_members m r4 = Some x"
      using l4 by (rule ms [rotated])
    then show ?thesis
      using p sk q k sk1 colon v v' sk3 x True by simp
  next
    case False
    then show ?thesis
      using p sk q k sk1 colon v v' sk3 by simp
  qed
qed

lemma parse_fuel:
  "(\<forall>s x m. parse_value n s = Some x \<longrightarrow> 2 * length s < m \<longrightarrow> parse_value m s = Some x) \<and>
   (\<forall>s x m. parse_elements n s = Some x \<longrightarrow> Suc (2 * length s) < m \<longrightarrow> parse_elements m s = Some x) \<and>
   (\<forall>s x m. parse_members n s = Some x \<longrightarrow> Suc (2 * length s) < m \<longrightarrow> parse_members m s = Some x)"
proof (induction n)
  case 0
  show ?case by simp
next
  case (Suc n)
  then have v: "\<And>s x m. parse_value n s = Some x \<Longrightarrow> 2 * length s < m \<Longrightarrow> parse_value m s = Some x"
    and e: "\<And>s x m. parse_elements n s = Some x \<Longrightarrow> Suc (2 * length s) < m \<Longrightarrow> parse_elements m s = Some x"
    and m: "\<And>s x m. parse_members n s = Some x \<Longrightarrow> Suc (2 * length s) < m \<Longrightarrow> parse_members m s = Some x"
    by blast+
  have pv: "parse_value k s = Some x"
    if p: "parse_value (Suc n) s = Some x" and f: "2 * length s < k" for s x k
  proof -
    obtain k' where k: "k = Suc k'"
      using f by (cases k) simp_all
    obtain a b where x: "x = (a, b)"
      by (cases x)
    have "parse_value (Suc k') s = Some (a, b)"
    proof (rule parse_value_more_fuel)
      show "parse_value (Suc n) s = Some (a, b)"
        using p x by simp
      show "parse_members k' t = Some y"
        if l: "length t < length s" and q: "parse_members n t = Some y" for t y
      proof (rule m [OF q])
        show "Suc (2 * length t) < k'"
          using l f k by simp
      qed
      show "parse_elements k' t = Some y"
        if l: "length t < length s" and q: "parse_elements n t = Some y" for t y
      proof (rule e [OF q])
        show "Suc (2 * length t) < k'"
          using l f k by simp
      qed
    qed
    then show ?thesis
      using k x by simp
  qed
  have pe: "parse_elements k s = Some x"
    if p: "parse_elements (Suc n) s = Some x" and f: "Suc (2 * length s) < k" for s x k
  proof -
    obtain k' where k: "k = Suc k'"
      using f by (cases k) simp_all
    obtain a b where x: "x = (a, b)"
      by (cases x)
    have "parse_elements (Suc k') s = Some (a, b)"
    proof (rule parse_elements_more_fuel)
      show "parse_elements (Suc n) s = Some (a, b)"
        using p x by simp
      show "parse_value k' s = Some y" if q: "parse_value n s = Some y" for y
      proof (rule v [OF q])
        show "2 * length s < k'"
          using f k by simp
      qed
      show "parse_elements k' t = Some y"
        if l: "Suc (length t) < length s" and q: "parse_elements n t = Some y" for t y
      proof (rule e [OF q])
        show "Suc (2 * length t) < k'"
          using l f k by simp
      qed
    qed
    then show ?thesis
      using k x by simp
  qed
  have pm: "parse_members k s = Some x"
    if p: "parse_members (Suc n) s = Some x" and f: "Suc (2 * length s) < k" for s x k
  proof -
    obtain k' where k: "k = Suc k'"
      using f by (cases k) simp_all
    obtain a b where x: "x = (a, b)"
      by (cases x)
    have "parse_members (Suc k') s = Some (a, b)"
    proof (rule parse_members_more_fuel)
      show "parse_members (Suc n) s = Some (a, b)"
        using p x by simp
      show "parse_value k' t = Some y"
        if l: "length t < length s" and q: "parse_value n t = Some y" for t y
      proof (rule v [OF q])
        show "2 * length t < k'"
          using l f k by simp
      qed
      show "parse_members k' t = Some y"
        if l: "Suc (length t) < length s" and q: "parse_members n t = Some y" for t y
      proof (rule m [OF q])
        show "Suc (2 * length t) < k'"
          using l f k by simp
      qed
    qed
    then show ?thesis
      using k x by simp
  qed
  show ?case
    using pv pe pm by blast
qed

lemma parse_value_fuel:
  assumes "parse_value n text = Some x"
  shows "parse_value (Suc (2 * length text)) text = Some x"
proof -
  have "2 * length text < Suc (2 * length text)"
    by simp
  with assms show ?thesis
    using parse_fuel [of n] by blast
qed

lemma JSON_parse_fuel:
  assumes "parse_value n text = Some (v, rest)"
  shows "JSON_parse text = (if skip_ws rest = [] then Some v else None)"
  unfolding JSON_parse_def parse_value_fuel [OF assms] by simp

subsection \<open>The loops over the range\<close>

lemma GetAllVotes_loop_map:
  "GetAllVotes_loop iterator allResults =
     allResults @ map (\<lambda>result. case JSON_parse (strValue_of (snd result)) of Some parsed \<Rightarrow> parsed
                                 | None \<Rightarrow> JString (strValue_of (snd result))) iterator"
  by (induction iterator arbitrary: allResults) (simp_all add: Let_def)

lemma DeleteAllVotes_loop_filter:
  "DeleteAllVotes_loop iterator ctx = filter (\<lambda>kv. fst kv \<notin> fst ` set iterator) ctx"
  by (induction iterator arbitrary: ctx) (auto simp: deleteState_def intro: filter_cong)

lemma DeleteAllVotes_empties: "DeleteAllVotes ctx = (Inr (), [])"
  by (simp add: DeleteAllVotes_def getStateByRange_all DeleteAllVotes_loop_filter)

lemma InitLedger_state:
  "snd (InitLedger ctx) =
     putState
       (putState ctx ''voter1''
          (encode \<lparr>VoterID = ''voter1'', CandidateID = ''candidate1'', Station = ''station1''\<rparr>))
       ''voter2''
       (encode \<lparr>VoterID = ''voter2'', CandidateID = ''candidate2'', Station = ''station2''\<rparr>)"
  by (simp add: InitLedger_def)

subsection \<open>The tally loop on values that name candidates\<close>

lemma counts_only_map_of:
  assumes "counts_only obj"
  shows "map_of obj c = (if count_in obj c = 0 then None else Some (JSNumber (count_in obj c)))"
proof (cases "map_of obj c")
  case None
  then show ?thesis by (simp add: count_in_def)
next
  case (Some v)
  then have "(c, v) \<in> set obj"
    by (rule map_of_SomeD)
  then obtain n where "0 < n" "v = JSNumber n"
    using assms by (auto simp: counts_only_def)
  then show ?thesis
    using Some by (simp add: count_in_def)
qed

lemma not_inherited_proto: "Object_prototype k = None \<Longrightarrow> k \<noteq> ''__proto__''"
  by (auto simp: Object_prototype_def)

lemma set_update_subset: "set (AList.update k v al) \<subseteq> insert (k, v) (set al)"
  by (induction al) auto

lemma count_vote_counts:
  assumes "counts_only obj" and "Object_prototype k = None"
  shows "counts_only (count_vote obj k) \<and>
         count_in (count_vote obj k) c = (if c = k then Suc (count_in obj k) else count_in obj c)"
proof -
  have p: "k \<noteq> ''__proto__''"
    using assms(2) by (rule not_inherited_proto)
  have m: "map_of obj k = (if count_in obj k = 0 then None else Some (JSNumber (count_in obj k)))"
    using assms(1) by (rule counts_only_map_of)
  have u: "count_vote obj k = AList.update k (JSNumber (Suc (count_in obj k))) obj"
  proof (cases "count_in obj k = 0")
    case True
    then have "Get obj k = None"
      using m assms(2) by (simp add: Get_def)
    then show ?thesis
      using p True by (simp add: count_vote_def Set_property_def Get_def update_conv')
  next
    case False
    then have "Get obj k = Some (JSNumber (count_in obj k))"
      using m by (simp add: Get_def)
    then show ?thesis
      using p False by (simp add: count_vote_def Set_property_def)
  qed
  have "counts_only (AList.update k (JSNumber (Suc (count_in obj k))) obj)"
    using assms set_update_subset [of k "JSNumber (Suc (count_in obj k))" obj]
    by (auto simp: counts_only_def)
  moreover have "count_in (AList.update k (JSNumber (Suc (count_in obj k))) obj) c =
      (if c = k then Suc (count_in obj k) else count_in obj c)"
    by (simp add: count_in_def update_conv')
  ultimately show ?thesis
    unfolding u by simp
qed


lemma candidate_of_key:
  assumes "candidate_of strValue = Some c"
  shows "\<exists>vote. JSON_parse strValue = Some vote \<and> get_CandidateID vote = Inr (Some (JString c)) \<and>
           ToPropertyKey NumberToString (Some (JString c)) = Inr c"
  using assms
  by (auto simp: candidate_of_def ToPropertyKey_def split: option.splits json.splits)

lemma GetVoteStatistics_loop_counts:
  assumes "\<forall>result \<in> set iterator. JSON_parse (strValue_of (snd result)) = None \<or>
             (\<exists>c. candidate_of (strValue_of (snd result)) = Some c \<and> Object_prototype c = None)"
    and "counts_only allResults"
  shows "\<exists>obj. GetVoteStatistics_loop NumberToString iterator allResults = Inr obj \<and>
           counts_only obj \<and>
           (\<forall>c. count_in obj c =
                count_in allResults c +
                length (filter (\<lambda>result. candidate_of (strValue_of (snd result)) = Some c) iterator))"
  using assms
proof (induction iterator arbitrary: allResults)
  case Nil
  then show ?case by simp
next
  case (Cons result iterator)
  show ?case
  proof (cases "JSON_parse (strValue_of (snd result))")
    case None
    then have "candidate_of (strValue_of (snd result)) = None"
      by (simp add: candidate_of_def)
    then show ?thesis
      using Cons None by simp
  next
    case (Some vote)
    then obtain k where k: "candidate_of (strValue_of (snd result)) = Some k" "Object_prototype k = None"
      using Cons.prems(1) by auto
    have g: "get_CandidateID vote = Inr (Some (JString k))"
      using candidate_of_key [OF k(1)] Some by auto
    have step: "GetVoteStatistics_loop NumberToString (result # iterator) allResults =
        GetVoteStatistics_loop NumberToString iterator (count_vote allResults k)"
      using Some g by (simp add: ToPropertyKey_def)
    have c: "counts_only (count_vote allResults k)"
      and n: "\<And>c. count_in (count_vote allResults k) c =
                (if c = k then Suc (count_in allResults k) else count_in allResults c)"
      using count_vote_counts [OF Cons.prems(2) k(2)] by simp_all
    obtain obj where obj: "GetVoteStatistics_loop NumberToString iterator (count_vote allResults k) = Inr obj"
        "counts_only obj"
        "\<And>c. count_in obj c = count_in (count_vote allResults k) c +
               length (filter (\<lambda>result. candidate_of (strValue_of (snd result)) = Some c) iterator)"
      using Cons.IH [OF _ c] Cons.prems(1) by auto
    show ?thesis
      unfolding step using obj k(1) by (auto simp: n)
  qed
qed


lemma candidate_of_encode: "candidate_of (encode vote) = Some (CandidateID vote)"
  by (simp add: candidate_of_def JSON_parse_encode)

lemma tally_counts:
  assumes "\<forall>result \<in> set ctx. JSON_parse (strValue_of (snd result)) = None \<or>
             (\<exists>c. candidate_of (strValue_of (snd result)) = Some c \<and> Object_prototype c = None)"
  shows "\<exists>obj. GetVoteStatistics NumberToString ctx = (Inr obj, ctx) \<and>
           (\<forall>c. map_of obj c =
              (if length (filter (\<lambda>result. candidate_of (strValue_of (snd result)) = Some c) ctx) = 0 then None
               else Some (JSNumber (length (filter (\<lambda>result. candidate_of (strValue_of (snd result)) = Some c) ctx)))))"
proof -
  have "counts_only []"
    by (simp add: counts_only_def)
  with assms obtain obj where obj: "GetVoteStatistics_loop NumberToString ctx [] = Inr obj"
      "counts_only obj"
      "\<And>c. count_in obj c = count_in [] c + length (filter (\<lambda>result. candidate_of (strValue_of (snd result)) = Some c) ctx)"
    using GetVoteStatistics_loop_counts [of ctx "[]" NumberToString] by auto
  have "count_in obj c = length (filter (\<lambda>result. candidate_of (strValue_of (snd result)) = Some c) ctx)" for c
    using obj(3) [of c] by (simp add: count_in_def)
  then have "map_of obj c =
      (if length (filter (\<lambda>result. candidate_of (strValue_of (snd result)) = Some c) ctx) = 0 then None
       else Some (JSNumber (length (filter (\<lambda>result. candidate_of (strValue_of (snd result)) = Some c) ctx))))" for c
    using counts_only_map_of [OF obj(2), of c] by simp
  then show ?thesis
    using obj(1) by (simp add: GetVoteStatistics_def getStateByRange_all)
qed

lemma length_filter_mset:
  "mset xs = mset ys \<Longrightarrow> length (filter P xs) = length (filter P ys)"
  by (metis mset_filter size_mset)

lemma GetVoteStatistics_loop_skips:
  "GetVoteStatistics_loop NumberToString (filter (\<lambda>result. JSON_parse (strValue_of (snd result)) \<noteq> None) iterator) allResults =
   GetVoteStatistics_loop NumberToString iterator allResults"
proof (induction iterator arbitrary: allResults)
  case Nil
  show ?case by simp
next
  case (Cons result iterator)
  show ?case
  proof (cases "JSON_parse (strValue_of (snd result))")
    case None
    then show ?thesis
      using Cons.IH by simp
  next
    case (Some vote)
    then show ?thesis
      using Cons.IH by (simp split: sum.splits)
  qed
qed

lemma mset_putState:
  assumes "getState ctx k = None"
  shows "mset (putState ctx k v) = add_mset (k, v) (mset ctx)"
proof -
  have "k \<notin> fst ` set ctx"
    using assms by (simp add: getState_def map_of_eq_None_iff)
  then have "deleteState ctx k = ctx"
    by (auto simp: deleteState_def intro: filter_True)
  then show ?thesis
    by (simp add: putState_def)
qed

lemma RegisterVote_new:
  assumes "getState ctx v = None"
  shows "RegisterVote ctx v c s =
    (Inr (), putState ctx v (encode \<lparr>VoterID = v, CandidateID = c, Station = s\<rparr>))"
  using assms by (simp add: RegisterVote_def VoteExists_def)

section \<open>The claims\<close>

subsection \<open>Canonical encoding\<close>

text \<open>
  C3. Two records whose field values are equal and whose fields stand in different key
  orders, at every nesting level, have the same canonical encoding:
  \<^verbatim>\<open>stringify(sortKeysRecursive(r1))\<close> and
  \<^verbatim>\<open>stringify(sortKeysRecursive(r2))\<close> are the same text. The encoding is a
  total function of the record, and its text is never empty.
\<close>

theorem canonical_encoding_key_order:
  assumes "same_fields r1 r2"
  shows "stringify (sortKeysRecursive r1) = stringify (sortKeysRecursive r2) \<and>
         stringify (sortKeysRecursive r1) \<noteq> []"
proof -
  have "stringify r \<noteq> []" for r
    by (cases r) (simp_all add: QuoteJSONString_def)
  then show ?thesis
    using assms by (simp add: same_fields_sortKeysRecursive)
qed

theorem canonical_encoding_key_order_witness:
  "same_fields
     (Rec [(''VoterID'', Str ''v''), (''CandidateID'', Str ''c''),
           (''Station'', Rec [(''b'', Str ''x''), (''a'', Str ''y'')])])
     (Rec [(''Station'', Rec [(''a'', Str ''y''), (''b'', Str ''x'')]), (''VoterID'', Str ''v''),
           (''CandidateID'', Str ''c'')]) \<and>
   stringify (sortKeysRecursive
     (Rec [(''VoterID'', Str ''v''), (''CandidateID'', Str ''c''),
           (''Station'', Rec [(''b'', Str ''x''), (''a'', Str ''y'')])])) =
   stringify (sortKeysRecursive
     (Rec [(''Station'', Rec [(''a'', Str ''y''), (''b'', Str ''x'')]), (''VoterID'', Str ''v''),
           (''CandidateID'', Str ''c'')]))"
proof -
  have n: "same_fields (Rec [(''b'', Str ''x''), (''a'', Str ''y'')])
                       (Rec [(''a'', Str ''y''), (''b'', Str ''x'')])"
    by (rule same_Rec [where ys = "[(''b'', Str ''x''), (''a'', Str ''y'')]"])
       (simp_all add: same_Str)
  have s: "same_fields
     (Rec [(''VoterID'', Str ''v''), (''CandidateID'', Str ''c''),
           (''Station'', Rec [(''b'', Str ''x''), (''a'', Str ''y'')])])
     (Rec [(''Station'', Rec [(''a'', Str ''y''), (''b'', Str ''x'')]), (''VoterID'', Str ''v''),
           (''CandidateID'', Str ''c'')])"
    by (rule same_Rec [where ys = "[(''VoterID'', Str ''v''), (''CandidateID'', Str ''c''),
           (''Station'', Rec [(''a'', Str ''y''), (''b'', Str ''x'')])]"])
       (simp_all add: same_Str n)
  show ?thesis
    using s canonical_encoding_key_order [OF s] by blast
qed

subsection \<open>The transactions on one vote\<close>

text \<open>
  C4. For a voter \<open>v\<close> with no value in World State (no entry, or an empty one),
  \<^verbatim>\<open>VoteExists\<close> returns false; \<^verbatim>\<open>RegisterVote(v, c, s)\<close>
  succeeds, and in the state it leaves \<^verbatim>\<open>VoteExists(v)\<close> returns true and
  \<^verbatim>\<open>ReadVote(v)\<close> returns the encoding of the record, which
  \<^verbatim>\<open>JSON.parse\<close> reads as the object with \<^verbatim>\<open>CandidateID\<close> \<open>c\<close>, \<^verbatim>\<open>Station\<close> \<open>s\<close>
  and \<^verbatim>\<open>VoterID\<close> \<open>v\<close>.
\<close>

theorem RegisterVote_absent:
  assumes "getState ctx v = None \<or> getState ctx v = Some []"
  shows "VoteExists ctx v = (Inr False, ctx) \<and>
    fst (RegisterVote ctx v c s) = Inr () \<and>
    VoteExists (snd (RegisterVote ctx v c s)) v = (Inr True, snd (RegisterVote ctx v c s)) \<and>
    ReadVote (snd (RegisterVote ctx v c s)) v =
      (Inr (encode \<lparr>VoterID = v, CandidateID = c, Station = s\<rparr>), snd (RegisterVote ctx v c s)) \<and>
    JSON_parse (encode \<lparr>VoterID = v, CandidateID = c, Station = s\<rparr>) =
      Some (JObject [(''CandidateID'', JString c), (''Station'', JString s),
                     (''VoterID'', JString v)])"
proof -
  let ?vote = "\<lparr>VoterID = v, CandidateID = c, Station = s\<rparr>"
  let ?ctx' = "putState ctx v (encode ?vote)"
  have e: "VoteExists ctx v = (Inr False, ctx)"
    using assms by (auto simp: VoteExists_def)
  then have r: "RegisterVote ctx v c s = (Inr (), ?ctx')"
    by (simp add: RegisterVote_def)
  have g: "getState ?ctx' v = Some (encode ?vote)"
    by (simp add: getState_putState)
  have "VoteExists ?ctx' v = (Inr True, ?ctx')"
    using g encode_nonempty [of ?vote] by (simp add: VoteExists_def)
  moreover have "ReadVote ?ctx' v = (Inr (encode ?vote), ?ctx')"
    using g encode_nonempty [of ?vote] by (simp add: ReadVote_def)
  moreover have "JSON_parse (encode ?vote) =
      Some (JObject [(''CandidateID'', JString c), (''Station'', JString s), (''VoterID'', JString v)])"
    using JSON_parse_encode [of ?vote] by simp
  ultimately show ?thesis
    using e unfolding r by simp
qed

theorem RegisterVote_absent_witness:
  \<open>(getState [] ''v1'' = None \<or> getState [] ''v1'' = Some []) \<and>
   VoteExists [] ''v1'' = (Inr False, []) \<and>
   RegisterVote [] ''v1'' ''cA'' ''s1'' =
     (Inr (), [(''v1'', ''{"CandidateID":"cA","Station":"s1","VoterID":"v1"}'')]) \<and>
   VoteExists [(''v1'', ''{"CandidateID":"cA","Station":"s1","VoterID":"v1"}'')] ''v1'' =
     (Inr True, [(''v1'', ''{"CandidateID":"cA","Station":"s1","VoterID":"v1"}'')]) \<and>
   ReadVote [(''v1'', ''{"CandidateID":"cA","Station":"s1","VoterID":"v1"}'')] ''v1'' =
     (Inr ''{"CandidateID":"cA","Station":"s1","VoterID":"v1"}'',
      [(''v1'', ''{"CandidateID":"cA","Station":"s1","VoterID":"v1"}'')]) \<and>
   JSON_parse ''{"CandidateID":"cA","Station":"s1","VoterID":"v1"}'' =
     Some (JObject [(''CandidateID'', JString ''cA''), (''Station'', JString ''s1''),
                    (''VoterID'', JString ''v1'')])\<close>
proof -
  let ?new = \<open>''{"CandidateID":"cA","Station":"s1","VoterID":"v1"}''\<close>
  have h: "getState [] ''v1'' = None \<or> getState [] ''v1'' = Some []"
    by (simp add: getState_def)
  have e: "encode \<lparr>VoterID = ''v1'', CandidateID = ''cA'', Station = ''s1''\<rparr> = ?new"
    by (simp add: encode_text QuoteJSONString_def escape_char_def)
  have r: "RegisterVote [] ''v1'' ''cA'' ''s1'' = (Inr (), [(''v1'', ?new)])"
    by code_simp
  show ?thesis
    using h r RegisterVote_absent [OF h, of "''cA''" "''s1''"] unfolding e by simp
qed

text \<open>
  C5. For a voter \<open>v\<close> with a non-empty value in World State,
  \<^verbatim>\<open>RegisterVote(v, c, s)\<close> throws the error "The vote from voter v already
  exists" for every \<open>c\<close> and \<open>s\<close>, and World State is what it was.
\<close>

theorem RegisterVote_present:
  assumes "getState ctx v = Some old" and "old \<noteq> []"
  shows "RegisterVote ctx v c s =
    (Inl (Error (''The vote from voter '' @ v @ '' already exists'')), ctx)"
  using assms by (simp add: RegisterVote_def VoteExists_def)

theorem RegisterVote_present_witness:
  \<open>getState [(''voter1'', ''{"CandidateID":"candidate1","Station":"station1","VoterID":"voter1"}'')]
      ''voter1'' =
     Some ''{"CandidateID":"candidate1","Station":"station1","VoterID":"voter1"}'' \<and>
   RegisterVote [(''voter1'', ''{"CandidateID":"candidate1","Station":"station1","VoterID":"voter1"}'')]
      ''voter1'' ''candidate2'' ''station2'' =
     (Inl (Error ''The vote from voter voter1 already exists''),
      [(''voter1'', ''{"CandidateID":"candidate1","Station":"station1","VoterID":"voter1"}'')])\<close>
proof -
  let ?old = \<open>''{"CandidateID":"candidate1","Station":"station1","VoterID":"voter1"}''\<close>
  have g: "getState [(''voter1'', ?old)] ''voter1'' = Some ?old"
    by (simp add: getState_def)
  have n: "?old \<noteq> []"
    by simp
  show ?thesis
    using g RegisterVote_present [OF g n, of "''candidate2''" "''station2''"] by simp
qed

text \<open>
  C6. For a voter \<open>v\<close> with no value in World State (no entry, or an empty one), each
  of \<^verbatim>\<open>ReadVote(v)\<close>, \<^verbatim>\<open>UpdateVote(v, c, s)\<close> and
  \<^verbatim>\<open>DeleteVote(v)\<close> throws the error "The vote from voter v does not exist"
  and leaves World State as it was; none of them returns normally.
\<close>

theorem absent_not_found:
  assumes "getState ctx v = None \<or> getState ctx v = Some []"
  shows "ReadVote ctx v = (Inl (Error (''The vote from voter '' @ v @ '' does not exist'')), ctx) \<and>
    UpdateVote ctx v c s = (Inl (Error (''The vote from voter '' @ v @ '' does not exist'')), ctx) \<and>
    DeleteVote ctx v = (Inl (Error (''The vote from voter '' @ v @ '' does not exist'')), ctx)"
  using assms by (auto simp: ReadVote_def UpdateVote_def DeleteVote_def VoteExists_def)

theorem absent_not_found_witness:
  "(getState [(''voter1'', ''x'')] ''voter2'' = None \<or>
    getState [(''voter1'', ''x'')] ''voter2'' = Some []) \<and>
   ReadVote [(''voter1'', ''x'')] ''voter2'' =
     (Inl (Error ''The vote from voter voter2 does not exist''), [(''voter1'', ''x'')]) \<and>
   UpdateVote [(''voter1'', ''x'')] ''voter2'' ''c'' ''s'' =
     (Inl (Error ''The vote from voter voter2 does not exist''), [(''voter1'', ''x'')]) \<and>
   DeleteVote [(''voter1'', ''x'')] ''voter2'' =
     (Inl (Error ''The vote from voter voter2 does not exist''), [(''voter1'', ''x'')])"
proof -
  have h: "getState [(''voter1'', ''x'')] ''voter2'' = None \<or>
           getState [(''voter1'', ''x'')] ''voter2'' = Some []"
    by (simp add: getState_def)
  show ?thesis
    using h absent_not_found [OF h, of "''c''" "''s''"] by simp
qed

text \<open>
  C7. For a voter \<open>v\<close> with a non-empty value in World State, whatever that value is,
  \<^verbatim>\<open>UpdateVote(v, c2, s2)\<close> succeeds; in the state it leaves
  \<^verbatim>\<open>VoteExists(v)\<close> returns true and \<^verbatim>\<open>ReadVote(v)\<close> returns the
  encoding of the new record alone, which \<^verbatim>\<open>JSON.parse\<close> reads as the
  object with \<^verbatim>\<open>CandidateID\<close> \<open>c2\<close>, \<^verbatim>\<open>Station\<close> \<open>s2\<close>
  and \<^verbatim>\<open>VoterID\<close> \<open>v\<close>.
\<close>

theorem UpdateVote_replaces:
  assumes "getState ctx v = Some old" and "old \<noteq> []"
  shows "fst (UpdateVote ctx v c2 s2) = Inr () \<and>
    VoteExists (snd (UpdateVote ctx v c2 s2)) v = (Inr True, snd (UpdateVote ctx v c2 s2)) \<and>
    ReadVote (snd (UpdateVote ctx v c2 s2)) v =
      (Inr (encode \<lparr>VoterID = v, CandidateID = c2, Station = s2\<rparr>), snd (UpdateVote ctx v c2 s2)) \<and>
    JSON_parse (encode \<lparr>VoterID = v, CandidateID = c2, Station = s2\<rparr>) =
      Some (JObject [(''CandidateID'', JString c2), (''Station'', JString s2),
                     (''VoterID'', JString v)])"
proof -
  let ?vote = "\<lparr>VoterID = v, CandidateID = c2, Station = s2\<rparr>"
  let ?ctx' = "putState ctx v (encode ?vote)"
  have u: "UpdateVote ctx v c2 s2 = (Inr (), ?ctx')"
    using assms by (simp add: UpdateVote_def VoteExists_def)
  have g: "getState ?ctx' v = Some (encode ?vote)"
    by (simp add: getState_putState)
  have "VoteExists ?ctx' v = (Inr True, ?ctx')"
    using g encode_nonempty [of ?vote] by (simp add: VoteExists_def)
  moreover have "ReadVote ?ctx' v = (Inr (encode ?vote), ?ctx')"
    using g encode_nonempty [of ?vote] by (simp add: ReadVote_def)
  moreover have "JSON_parse (encode ?vote) =
      Some (JObject [(''CandidateID'', JString c2), (''Station'', JString s2), (''VoterID'', JString v)])"
    using JSON_parse_encode [of ?vote] by simp
  ultimately show ?thesis
    unfolding u by simp
qed

theorem UpdateVote_replaces_witness:
  \<open>getState [(''v1'', ''{"CandidateID":"c1","Station":"s1","VoterID":"v1"}'')] ''v1'' =
     Some ''{"CandidateID":"c1","Station":"s1","VoterID":"v1"}'' \<and>
   UpdateVote [(''v1'', ''{"CandidateID":"c1","Station":"s1","VoterID":"v1"}'')] ''v1'' ''c2'' ''s2'' =
     (Inr (), [(''v1'', ''{"CandidateID":"c2","Station":"s2","VoterID":"v1"}'')]) \<and>
   ReadVote (snd (UpdateVote [(''v1'', ''{"CandidateID":"c1","Station":"s1","VoterID":"v1"}'')]
                    ''v1'' ''c2'' ''s2'')) ''v1'' =
     (Inr ''{"CandidateID":"c2","Station":"s2","VoterID":"v1"}'',
      [(''v1'', ''{"CandidateID":"c2","Station":"s2","VoterID":"v1"}'')]) \<and>
   JSON_parse ''{"CandidateID":"c2","Station":"s2","VoterID":"v1"}'' =
     Some (JObject [(''CandidateID'', JString ''c2''), (''Station'', JString ''s2''),
                    (''VoterID'', JString ''v1'')])\<close>
proof -
  let ?old = \<open>''{"CandidateID":"c1","Station":"s1","VoterID":"v1"}''\<close>
  let ?new = \<open>''{"CandidateID":"c2","Station":"s2","VoterID":"v1"}''\<close>
  have g: "getState [(''v1'', ?old)] ''v1'' = Some ?old"
    by (simp add: getState_def)
  have n: "?old \<noteq> []"
    by simp
  have e: "encode \<lparr>VoterID = ''v1'', CandidateID = ''c2'', Station = ''s2''\<rparr> = ?new"
    by (simp add: encode_text QuoteJSONString_def escape_char_def)
  have u: "UpdateVote [(''v1'', ?old)] ''v1'' ''c2'' ''s2'' = (Inr (), [(''v1'', ?new)])"
    by code_simp
  show ?thesis
    using g u UpdateVote_replaces [OF g n, of "''c2''" "''s2''"] unfolding e by simp
qed

subsection \<open>The transactions over the whole range\<close>

text \<open>
  C8. The claim reads: a stored value that decodes as a record appears decoded, and
  the raw string stands in for every value that does not. The code makes no test of a
  record's shape. \<^verbatim>\<open>GetAllVotes\<close> scans the whole store, returns
  normally for every World State and leaves it as it was; it returns the JSON text of
  an array with one element for each entry, in iteration order. The element is the
  value \<^verbatim>\<open>JSON.parse\<close> reads from the entry's text, whatever JSON value
  that is, and the text itself as a string where \<^verbatim>\<open>JSON.parse\<close>
  throws. For an entry that holds an encoded vote, read back unchanged, the element is
  the object with the vote's three fields.
\<close>

theorem GetAllVotes_entries:
  "getStateByRange ctx [] [] = ctx \<and>
   GetAllVotes NumberToString ctx =
     (Inr (''['' @
           join '',''
             (map (\<lambda>result.
                     JSON_stringify NumberToString
                       (case JSON_parse (strValue_of (snd result)) of
                          Some parsed \<Rightarrow> parsed
                        | None \<Rightarrow> JString (strValue_of (snd result)))) ctx) @
           '']''), ctx) \<and>
   (strValue_of (encode vote) = encode vote \<longrightarrow>
      (case JSON_parse (strValue_of (encode vote)) of
         Some parsed \<Rightarrow> parsed
       | None \<Rightarrow> JString (strValue_of (encode vote))) =
      JObject [(''CandidateID'', JString (CandidateID vote)), (''Station'', JString (Station vote)),
               (''VoterID'', JString (VoterID vote))])"
  by (simp add: GetAllVotes_def GetAllVotes_loop_map getStateByRange_all JSON_parse_encode comp_def)

theorem GetAllVotes_entries_witness:
  \<open>strValue_of (encode \<lparr>VoterID = ''v1'', CandidateID = ''cA'', Station = ''s1''\<rparr>) =
     encode \<lparr>VoterID = ''v1'', CandidateID = ''cA'', Station = ''s1''\<rparr> \<and>
   (case JSON_parse (strValue_of (encode \<lparr>VoterID = ''v1'', CandidateID = ''cA'', Station = ''s1''\<rparr>)) of
      Some parsed \<Rightarrow> parsed
    | None \<Rightarrow> JString (strValue_of (encode \<lparr>VoterID = ''v1'', CandidateID = ''cA'', Station = ''s1''\<rparr>))) =
     JObject [(''CandidateID'', JString ''cA''), (''Station'', JString ''s1''),
              (''VoterID'', JString ''v1'')] \<and>
   GetAllVotes id
     [(''v1'', ''{"CandidateID":"cA","Station":"s1","VoterID":"v1"}''),
      (''v2'', ''not a record''),
      (''v3'', ([CHR 0x09, CHR 0x0A, CHR 0x0D] @ '' {"b" : "x", "10": true, "9": [null ,{ } , [ ]], "b": "y"} '')),
      (''v4'', [CHR 0xFF])] =
     (Inr (''[{"CandidateID":"cA","Station":"s1","VoterID":"v1"},"not a record",'' @
           ''{"9":[null,{},[]],"10":true,"b":"y"},"'' @ [CHR 0xEF, CHR 0xBF, CHR 0xBD] @ ''"]''),
      [(''v1'', ''{"CandidateID":"cA","Station":"s1","VoterID":"v1"}''),
       (''v2'', ''not a record''),
       (''v3'', ([CHR 0x09, CHR 0x0A, CHR 0x0D] @ '' {"b" : "x", "10": true, "9": [null ,{ } , [ ]], "b": "y"} '')),
       (''v4'', [CHR 0xFF])])\<close>
proof -
  let ?vote = "\<lparr>VoterID = ''v1'', CandidateID = ''cA'', Station = ''s1''\<rparr>"
  let ?e1 = \<open>''{"CandidateID":"cA","Station":"s1","VoterID":"v1"}''\<close>
  let ?e3 = \<open>[CHR 0x09, CHR 0x0A, CHR 0x0D] @ '' {"b" : "x", "10": true, "9": [null ,{ } , [ ]], "b": "y"} ''\<close>
  let ?ctx = "[(''v1'', ?e1), (''v2'', ''not a record''), (''v3'', ?e3), (''v4'', [CHR 0xFF])]"
  let ?element = "\<lambda>result. JSON_stringify id
      (case JSON_parse (strValue_of (snd result)) of Some parsed \<Rightarrow> parsed
       | None \<Rightarrow> JString (strValue_of (snd result)))"
  have e: "encode ?vote = ?e1"
    by (simp add: encode_text QuoteJSONString_def escape_char_def)
  have "strValue_of ?e1 = ?e1"
    by code_simp
  then have h: "strValue_of (encode ?vote) = encode ?vote"
    unfolding e .
  have t1: "?element (''v1'', ?e1) = ?e1"
    by code_simp
  have t2: \<open>?element (''v2'', ''not a record'') = ''"not a record"''\<close>
    by code_simp
  have t3: \<open>?element (''v3'', ?e3) = ''{"9":[null,{},[]],"10":true,"b":"y"}''\<close>
    by code_simp
  have t4: \<open>?element (''v4'', [CHR 0xFF]) = [CHR 0x22, CHR 0xEF, CHR 0xBF, CHR 0xBD, CHR 0x22]\<close>
    by code_simp
  have m: \<open>''['' @ join '','' (map ?element ?ctx) @ '']'' =
      ''[{"CandidateID":"cA","Station":"s1","VoterID":"v1"},"not a record",'' @
      ''{"9":[null,{},[]],"10":true,"b":"y"},"'' @ [CHR 0xEF, CHR 0xBF, CHR 0xBD] @ ''"]''\<close>
    unfolding list.map t1 t2 t3 t4 by (simp add: join_def)
  note T = GetAllVotes_entries [of ?ctx id ?vote]
  have "GetAllVotes id ?ctx = (Inr (''['' @ join '','' (map ?element ?ctx) @ '']''), ?ctx)"
    using T by blast
  then have g: \<open>GetAllVotes id ?ctx =
      (Inr (''[{"CandidateID":"cA","Station":"s1","VoterID":"v1"},"not a record",'' @
            ''{"9":[null,{},[]],"10":true,"b":"y"},"'' @ [CHR 0xEF, CHR 0xBF, CHR 0xBD] @ ''"]''), ?ctx)\<close>
    unfolding m .
  have "(case JSON_parse (strValue_of (encode ?vote)) of Some parsed \<Rightarrow> parsed
         | None \<Rightarrow> JString (strValue_of (encode ?vote))) =
        JObject [(''CandidateID'', JString ''cA''), (''Station'', JString ''s1''),
                 (''VoterID'', JString ''v1'')]"
    using T h by simp
  then show ?thesis
    using h g by blast
qed

theorem GetAllVotes_parsed_counterexample:
  \<open>JSON_parse (strValue_of ''{}'') = Some (JObject []) \<and>
   candidate_of (strValue_of ''{}'') = None \<and>
   GetAllVotes id [(''voter1'', ''{}'')] = (Inr ''[{}]'', [(''voter1'', ''{}'')]) \<and>
   GetAllVotes id [(''voter1'', ''{}'')] \<noteq> (Inr ''["{}"]'', [(''voter1'', ''{}'')]) \<and>
   JSON_parse (strValue_of ''null'') = Some JNull \<and>
   GetAllVotes id [(''voter1'', ''null'')] = (Inr ''[null]'', [(''voter1'', ''null'')]) \<and>
   GetAllVotes id [(''voter1'', ''null'')] \<noteq> (Inr ''["null"]'', [(''voter1'', ''null'')])\<close>
  by code_simp

text \<open>
  C9. For every World State, \<^verbatim>\<open>DeleteAllVotes\<close> returns normally and
  leaves the store empty; on that store \<^verbatim>\<open>GetAllVotes\<close> returns the text
  of the empty array and \<^verbatim>\<open>GetVoteStatistics\<close> the object without properties, and a
  second \<^verbatim>\<open>DeleteAllVotes\<close> returns normally and leaves the store empty.
\<close>

theorem DeleteAllVotes_idempotent:
  "DeleteAllVotes ctx = (Inr (), []) \<and>
   GetAllVotes NumberToString (snd (DeleteAllVotes ctx)) = (Inr ''[]'', []) \<and>
   GetVoteStatistics NumberToString (snd (DeleteAllVotes ctx)) = (Inr [], []) \<and>
   DeleteAllVotes (snd (DeleteAllVotes ctx)) = (Inr (), [])"
  by (simp add: DeleteAllVotes_empties GetAllVotes_def GetVoteStatistics_def getStateByRange_all
      join_def)

theorem DeleteAllVotes_idempotent_witness:
  "DeleteAllVotes [(''v1'', ''x''), (''v2'', ''y'')] = (Inr (), []) \<and>
   GetAllVotes id (snd (DeleteAllVotes [(''v1'', ''x''), (''v2'', ''y'')])) = (Inr ''[]'', []) \<and>
   GetVoteStatistics id (snd (DeleteAllVotes [(''v1'', ''x''), (''v2'', ''y'')])) = (Inr [], []) \<and>
   DeleteAllVotes (snd (DeleteAllVotes [(''v1'', ''x''), (''v2'', ''y'')])) = (Inr (), [])"
  by (rule DeleteAllVotes_idempotent)

text \<open>
  C10. \<^verbatim>\<open>InitLedger\<close> makes no existence check. It returns normally for
  every World State; afterwards the key \<^verbatim>\<open>voter1\<close> holds the canonical
  encoding of (voter1, candidate1, station1) and the key \<^verbatim>\<open>voter2\<close> that
  of (voter2, candidate2, station2), whatever they held before; every other key reads
  as before, and the entries under other keys are the same in the same order.
\<close>

theorem InitLedger_overwrites:
  \<open>fst (InitLedger ctx) = Inr () \<and>
   encode \<lparr>VoterID = ''voter1'', CandidateID = ''candidate1'', Station = ''station1''\<rparr> =
     ''{"CandidateID":"candidate1","Station":"station1","VoterID":"voter1"}'' \<and>
   encode \<lparr>VoterID = ''voter2'', CandidateID = ''candidate2'', Station = ''station2''\<rparr> =
     ''{"CandidateID":"candidate2","Station":"station2","VoterID":"voter2"}'' \<and>
   getState (snd (InitLedger ctx)) ''voter1'' =
     Some ''{"CandidateID":"candidate1","Station":"station1","VoterID":"voter1"}'' \<and>
   getState (snd (InitLedger ctx)) ''voter2'' =
     Some ''{"CandidateID":"candidate2","Station":"station2","VoterID":"voter2"}'' \<and>
   (\<forall>k. k \<noteq> ''voter1'' \<and> k \<noteq> ''voter2'' \<longrightarrow>
        getState (snd (InitLedger ctx)) k = getState ctx k) \<and>
   filter (\<lambda>kv. fst kv \<noteq> ''voter1'' \<and> fst kv \<noteq> ''voter2'') (snd (InitLedger ctx)) =
     filter (\<lambda>kv. fst kv \<noteq> ''voter1'' \<and> fst kv \<noteq> ''voter2'') ctx\<close>
proof -
  have "fst (InitLedger ctx) = Inr ()"
    by (simp add: InitLedger_def)
  moreover have
    "filter (\<lambda>kv. fst kv \<noteq> ''voter1'' \<and> fst kv \<noteq> ''voter2'') (snd (InitLedger ctx)) =
     filter (\<lambda>kv. fst kv \<noteq> ''voter1'' \<and> fst kv \<noteq> ''voter2'') ctx"
    unfolding InitLedger_state
    by (simp add: filter_putState [where P = "\<lambda>k. k \<noteq> ''voter1'' \<and> k \<noteq> ''voter2''"])
  ultimately show ?thesis
    unfolding InitLedger_state encode_voter1 encode_voter2
    by (simp add: getState_putState)
qed

theorem InitLedger_overwrites_witness:
  \<open>InitLedger [(''voter0'', ''kept''), (''voter1'', ''overwritten'')] =
     (Inr (),
      [(''voter0'', ''kept''),
       (''voter1'', ''{"CandidateID":"candidate1","Station":"station1","VoterID":"voter1"}''),
       (''voter2'', ''{"CandidateID":"candidate2","Station":"station2","VoterID":"voter2"}'')]) \<and>
   getState (snd (InitLedger [(''voter0'', ''kept''), (''voter1'', ''overwritten'')])) ''voter1'' =
     Some ''{"CandidateID":"candidate1","Station":"station1","VoterID":"voter1"}'' \<and>
   getState (snd (InitLedger [(''voter0'', ''kept''), (''voter1'', ''overwritten'')])) ''voter0'' =
     Some ''kept''\<close>
proof -
  have i: \<open>InitLedger [(''voter0'', ''kept''), (''voter1'', ''overwritten'')] =
     (Inr (),
      [(''voter0'', ''kept''),
       (''voter1'', ''{"CandidateID":"candidate1","Station":"station1","VoterID":"voter1"}''),
       (''voter2'', ''{"CandidateID":"candidate2","Station":"station2","VoterID":"voter2"}'')])\<close>
    by code_simp
  have g: "getState [(''voter0'', ''kept''), (''voter1'', ''overwritten'')] ''voter0'' = Some ''kept''"
    by (simp add: getState_def)
  show ?thesis
    using i g InitLedger_overwrites [of "[(''voter0'', ''kept''), (''voter1'', ''overwritten'')]"]
    by simp
qed

subsection \<open>The tally on values that are not votes\<close>

text \<open>
  C1. The claim: an entry whose value does not decode as a record adds to no count, and
  no stored value makes \<^verbatim>\<open>GetVoteStatistics\<close> fail. The code on two
  stores that hold one vote for \<^verbatim>\<open>cA\<close> and one value that is JSON but
  not a record: with the value \<^verbatim>\<open>null\<close> the read of
  \<^verbatim>\<open>vote.CandidateID\<close>, which stands after the \<^verbatim>\<open>try\<close>
  block, throws a \<^verbatim>\<open>TypeError\<close> and the transaction fails; with the
  value \<^verbatim>\<open>5\<close> the entry is counted under the key
  \<^verbatim>\<open>undefined\<close>.
\<close>

theorem GetVoteStatistics_null_aborts:
  \<open>GetVoteStatistics NumberToString
     [(''voter1'', ''{"CandidateID":"cA","Station":"s1","VoterID":"voter1"}''),
      (''voter2'', ''null'')] =
     (Inl TypeError,
      [(''voter1'', ''{"CandidateID":"cA","Station":"s1","VoterID":"voter1"}''),
       (''voter2'', ''null'')]) \<and>
   GetVoteStatistics NumberToString
     [(''voter1'', ''{"CandidateID":"cA","Station":"s1","VoterID":"voter1"}''),
      (''voter2'', ''5'')] =
     (Inr [(''cA'', JSNumber 1), (''undefined'', JSNumber 1)],
      [(''voter1'', ''{"CandidateID":"cA","Station":"s1","VoterID":"voter1"}''),
       (''voter2'', ''5'')])\<close>
  by code_simp

text \<open>
  C2. The claim: the tally maps every candidate to the number of stored records that
  name it. The code after \<^verbatim>\<open>RegisterVote("voter1", "toString", "station1")\<close>
  and \<^verbatim>\<open>RegisterVote("voter2", "cA", "station2")\<close> on the empty store:
  \<^verbatim>\<open>allResults["toString"]\<close> reads the method the object literal inherits,
  which is truthy, so no count starts at zero and \<^verbatim>\<open>+= 1\<close> appends to the
  method's text. The candidate \<^verbatim>\<open>toString\<close> has one record and the tally
  gives it a string; the candidate \<^verbatim>\<open>cA\<close> is counted as claimed.
\<close>

theorem GetVoteStatistics_inherited_name:
  \<open>snd (RegisterVote (snd (RegisterVote [] ''voter1'' ''toString'' ''station1''))
          ''voter2'' ''cA'' ''station2'') =
     [(''voter1'', ''{"CandidateID":"toString","Station":"station1","VoterID":"voter1"}''),
      (''voter2'', ''{"CandidateID":"cA","Station":"station2","VoterID":"voter2"}'')] \<and>
   GetVoteStatistics NumberToString
     [(''voter1'', ''{"CandidateID":"toString","Station":"station1","VoterID":"voter1"}''),
      (''voter2'', ''{"CandidateID":"cA","Station":"station2","VoterID":"voter2"}'')] =
     (Inr [(''toString'', JSString ''function toString() { [native code] }1''),
           (''cA'', JSNumber 1)],
      [(''voter1'', ''{"CandidateID":"toString","Station":"station1","VoterID":"voter1"}''),
       (''voter2'', ''{"CandidateID":"cA","Station":"station2","VoterID":"voter2"}'')])\<close>
  by code_simp

subsection \<open>The tally on votes\<close>

text \<open>
  X1. On a store in which every value either fails to parse or names a candidate that
  is not a property \<^verbatim>\<open>{}\<close> inherits, \<^verbatim>\<open>GetVoteStatistics\<close>
  returns normally and leaves the store as it was; in its object a candidate's property
  is the number of entries that name the candidate, and a candidate no entry names has
  no property.
\<close>

theorem GetVoteStatistics_counts:
  assumes "\<forall>result \<in> set ctx. JSON_parse (strValue_of (snd result)) = None \<or>
             (\<exists>c. candidate_of (strValue_of (snd result)) = Some c \<and> Object_prototype c = None)"
  shows "\<exists>obj. GetVoteStatistics NumberToString ctx = (Inr obj, ctx) \<and>
           (\<forall>c. map_of obj c =
              (if length (filter (\<lambda>result. candidate_of (strValue_of (snd result)) = Some c) ctx) = 0 then None
               else Some (JSNumber (length (filter (\<lambda>result. candidate_of (strValue_of (snd result)) = Some c) ctx)))))"
  using assms by (rule tally_counts)

theorem GetVoteStatistics_counts_witness:
  \<open>\<exists>obj. GetVoteStatistics id
       [(''v1'', ''{"CandidateID":"cA","Station":"s1","VoterID":"v1"}''),
        (''v2'', ''{"CandidateID":"cA","Station":"s2","VoterID":"v2"}''),
        (''v3'', ''{"CandidateID":"cB","Station":"s3","VoterID":"v3"}''),
        (''v4'', ''not a record'')] =
       (Inr obj,
        [(''v1'', ''{"CandidateID":"cA","Station":"s1","VoterID":"v1"}''),
         (''v2'', ''{"CandidateID":"cA","Station":"s2","VoterID":"v2"}''),
         (''v3'', ''{"CandidateID":"cB","Station":"s3","VoterID":"v3"}''),
         (''v4'', ''not a record'')]) \<and>
     map_of obj ''cA'' = Some (JSNumber 2) \<and> map_of obj ''cB'' = Some (JSNumber 1) \<and>
     map_of obj ''cC'' = None\<close>
proof -
  let ?ctx = \<open>[(''v1'', ''{"CandidateID":"cA","Station":"s1","VoterID":"v1"}''),
        (''v2'', ''{"CandidateID":"cA","Station":"s2","VoterID":"v2"}''),
        (''v3'', ''{"CandidateID":"cB","Station":"s3","VoterID":"v3"}''),
        (''v4'', ''not a record'')]\<close>
  have c1: \<open>candidate_of (strValue_of ''{"CandidateID":"cA","Station":"s1","VoterID":"v1"}'') = Some ''cA''\<close>
    by code_simp
  have c2: \<open>candidate_of (strValue_of ''{"CandidateID":"cA","Station":"s2","VoterID":"v2"}'') = Some ''cA''\<close>
    by code_simp
  have c3: \<open>candidate_of (strValue_of ''{"CandidateID":"cB","Station":"s3","VoterID":"v3"}'') = Some ''cB''\<close>
    by code_simp
  have c4: "JSON_parse (strValue_of ''not a record'') = None"
    by code_simp
  then have c4': "candidate_of (strValue_of ''not a record'') = None"
    by (simp add: candidate_of_def)
  have p: "Object_prototype ''cA'' = None" "Object_prototype ''cB'' = None"
    by (simp_all add: Object_prototype_def)
  have h: "\<forall>result \<in> set ?ctx. JSON_parse (strValue_of (snd result)) = None \<or>
             (\<exists>c. candidate_of (strValue_of (snd result)) = Some c \<and> Object_prototype c = None)"
    using c1 c2 c3 c4 p by simp
  obtain obj where o: "GetVoteStatistics id ?ctx = (Inr obj, ?ctx)"
    and m: "\<And>c. map_of obj c =
      (if length (filter (\<lambda>result. candidate_of (strValue_of (snd result)) = Some c) ?ctx) = 0 then None
       else Some (JSNumber (length (filter (\<lambda>result. candidate_of (strValue_of (snd result)) = Some c) ?ctx))))"
    using GetVoteStatistics_counts [OF h, of id] by blast
  have "map_of obj ''cA'' = Some (JSNumber 2)"
    unfolding m by (simp add: c1 c2 c3 c4')
  moreover have "map_of obj ''cB'' = Some (JSNumber 1)"
    unfolding m by (simp add: c1 c2 c3 c4')
  moreover have "map_of obj ''cC'' = None"
    unfolding m by (simp add: c1 c2 c3 c4')
  ultimately show ?thesis
    using o by blast
qed

text \<open>
  X2. On such a store the object of the tally, read as a mapping, does not depend on
  the order in which the entries are iterated: any permutation of the entries gives the
  same mapping.
\<close>

theorem GetVoteStatistics_order:
  assumes "\<forall>result \<in> set ctx. JSON_parse (strValue_of (snd result)) = None \<or>
             (\<exists>c. candidate_of (strValue_of (snd result)) = Some c \<and> Object_prototype c = None)"
    and "mset ctx' = mset ctx"
  shows "\<exists>obj obj'. GetVoteStatistics NumberToString ctx = (Inr obj, ctx) \<and>
           GetVoteStatistics NumberToString ctx' = (Inr obj', ctx') \<and>
           map_of obj = map_of obj'"
proof -
  have "set ctx' = set ctx"
    using assms(2) by (rule mset_eq_setD)
  then have h': "\<forall>result \<in> set ctx'. JSON_parse (strValue_of (snd result)) = None \<or>
             (\<exists>c. candidate_of (strValue_of (snd result)) = Some c \<and> Object_prototype c = None)"
    using assms(1) by simp
  obtain obj where o: "GetVoteStatistics NumberToString ctx = (Inr obj, ctx)"
    and m: "\<And>c. map_of obj c =
      (if length (filter (\<lambda>result. candidate_of (strValue_of (snd result)) = Some c) ctx) = 0 then None
       else Some (JSNumber (length (filter (\<lambda>result. candidate_of (strValue_of (snd result)) = Some c) ctx))))"
    using tally_counts [OF assms(1), of NumberToString] by blast
  obtain obj' where o': "GetVoteStatistics NumberToString ctx' = (Inr obj', ctx')"
    and m': "\<And>c. map_of obj' c =
      (if length (filter (\<lambda>result. candidate_of (strValue_of (snd result)) = Some c) ctx') = 0 then None
       else Some (JSNumber (length (filter (\<lambda>result. candidate_of (strValue_of (snd result)) = Some c) ctx'))))"
    using tally_counts [OF h', of NumberToString] by blast
  have "map_of obj c = map_of obj' c" for c
    unfolding m m' using length_filter_mset [OF assms(2)] by simp
  then have "map_of obj = map_of obj'"
    by (rule ext)
  then show ?thesis
    using o o' by blast
qed

theorem GetVoteStatistics_order_witness:
  \<open>GetVoteStatistics id
     [(''v1'', ''{"CandidateID":"cB","Station":"s1","VoterID":"v1"}''),
      (''v2'', ''{"CandidateID":"cA","Station":"s2","VoterID":"v2"}'')] =
     (Inr [(''cB'', JSNumber 1), (''cA'', JSNumber 1)],
      [(''v1'', ''{"CandidateID":"cB","Station":"s1","VoterID":"v1"}''),
       (''v2'', ''{"CandidateID":"cA","Station":"s2","VoterID":"v2"}'')]) \<and>
   GetVoteStatistics id
     [(''v2'', ''{"CandidateID":"cA","Station":"s2","VoterID":"v2"}''),
      (''v1'', ''{"CandidateID":"cB","Station":"s1","VoterID":"v1"}'')] =
     (Inr [(''cA'', JSNumber 1), (''cB'', JSNumber 1)],
      [(''v2'', ''{"CandidateID":"cA","Station":"s2","VoterID":"v2"}''),
       (''v1'', ''{"CandidateID":"cB","Station":"s1","VoterID":"v1"}'')]) \<and>
   map_of [(''cB'', JSNumber 1), (''cA'', JSNumber 1)] =
   map_of [(''cA'', JSNumber 1), (''cB'', JSNumber 1)]\<close>
proof -
  let ?e1 = \<open>''{"CandidateID":"cB","Station":"s1","VoterID":"v1"}''\<close>
  let ?e2 = \<open>''{"CandidateID":"cA","Station":"s2","VoterID":"v2"}''\<close>
  have c1: "candidate_of (strValue_of ?e1) = Some ''cB''"
    by code_simp
  have c2: "candidate_of (strValue_of ?e2) = Some ''cA''"
    by code_simp
  have p: "Object_prototype ''cA'' = None" "Object_prototype ''cB'' = None"
    by (simp_all add: Object_prototype_def)
  have h: "\<forall>result \<in> set [(''v1'', ?e1), (''v2'', ?e2)]. JSON_parse (strValue_of (snd result)) = None \<or>
             (\<exists>c. candidate_of (strValue_of (snd result)) = Some c \<and> Object_prototype c = None)"
    using c1 c2 p by simp
  have m: "mset [(''v2'', ?e2), (''v1'', ?e1)] = mset [(''v1'', ?e1), (''v2'', ?e2)]"
    by simp
  have t1: "GetVoteStatistics id [(''v1'', ?e1), (''v2'', ?e2)] =
      (Inr [(''cB'', JSNumber 1), (''cA'', JSNumber 1)], [(''v1'', ?e1), (''v2'', ?e2)])"
    by code_simp
  have t2: "GetVoteStatistics id [(''v2'', ?e2), (''v1'', ?e1)] =
      (Inr [(''cA'', JSNumber 1), (''cB'', JSNumber 1)], [(''v2'', ?e2), (''v1'', ?e1)])"
    by code_simp
  show ?thesis
    using GetVoteStatistics_order [OF h m, of id] unfolding t1 t2 by simp
qed

text \<open>
  X3. After \<^verbatim>\<open>RegisterVote\<close> of (v1, cA, s1), (v2, cA, s2) and (v3, cB, s3)
  on the empty store, for distinct voters, two different candidates that are not
  properties \<^verbatim>\<open>{}\<close> inherits and encodings that are read back unchanged,
  all three transactions succeed and
  \<^verbatim>\<open>GetVoteStatistics\<close> returns the mapping of cA to 2 and cB to 1.
\<close>

theorem GetVoteStatistics_three_votes:
  assumes "distinct [v1, v2, v3]" and "cA \<noteq> cB"
    and "Object_prototype cA = None" and "Object_prototype cB = None"
    and "strValue_of (encode \<lparr>VoterID = v1, CandidateID = cA, Station = s1\<rparr>) =
         encode \<lparr>VoterID = v1, CandidateID = cA, Station = s1\<rparr>"
    and "strValue_of (encode \<lparr>VoterID = v2, CandidateID = cA, Station = s2\<rparr>) =
         encode \<lparr>VoterID = v2, CandidateID = cA, Station = s2\<rparr>"
    and "strValue_of (encode \<lparr>VoterID = v3, CandidateID = cB, Station = s3\<rparr>) =
         encode \<lparr>VoterID = v3, CandidateID = cB, Station = s3\<rparr>"
  shows "\<exists>ctx1 ctx2 ctx3 obj.
           RegisterVote [] v1 cA s1 = (Inr (), ctx1) \<and>
           RegisterVote ctx1 v2 cA s2 = (Inr (), ctx2) \<and>
           RegisterVote ctx2 v3 cB s3 = (Inr (), ctx3) \<and>
           GetVoteStatistics NumberToString ctx3 = (Inr obj, ctx3) \<and>
           map_of obj = [cA \<mapsto> JSNumber 2, cB \<mapsto> JSNumber 1]"
proof -
  let ?e1 = "encode \<lparr>VoterID = v1, CandidateID = cA, Station = s1\<rparr>"
  let ?e2 = "encode \<lparr>VoterID = v2, CandidateID = cA, Station = s2\<rparr>"
  let ?e3 = "encode \<lparr>VoterID = v3, CandidateID = cB, Station = s3\<rparr>"
  let ?ctx1 = "putState [] v1 ?e1"
  let ?ctx2 = "putState ?ctx1 v2 ?e2"
  let ?ctx3 = "putState ?ctx2 v3 ?e3"
  have g0: "getState [] k = None" for k
    by (simp add: getState_def)
  have g1: "getState [] v1 = None"
    by (rule g0)
  have g2: "getState ?ctx1 v2 = None"
    using assms(1) by (auto simp: getState_putState g0)
  have g3: "getState ?ctx2 v3 = None"
    using assms(1) by (auto simp: getState_putState g0)
  have r1: "RegisterVote [] v1 cA s1 = (Inr (), ?ctx1)"
    using g1 by (rule RegisterVote_new)
  have r2: "RegisterVote ?ctx1 v2 cA s2 = (Inr (), ?ctx2)"
    using g2 by (rule RegisterVote_new)
  have r3: "RegisterVote ?ctx2 v3 cB s3 = (Inr (), ?ctx3)"
    using g3 by (rule RegisterVote_new)
  have ms: "mset ?ctx3 = mset [(v1, ?e1), (v2, ?e2), (v3, ?e3)]"
    by (simp add: mset_putState [OF g3] mset_putState [OF g2] mset_putState [OF g1])
  have h: "\<forall>result \<in> set ?ctx3. JSON_parse (strValue_of (snd result)) = None \<or>
             (\<exists>c. candidate_of (strValue_of (snd result)) = Some c \<and> Object_prototype c = None)"
    using mset_eq_setD [OF ms] assms(3,4) by (simp add: candidate_of_encode assms(5,6,7))
  obtain obj where o: "GetVoteStatistics NumberToString ?ctx3 = (Inr obj, ?ctx3)"
    and m: "\<And>c. map_of obj c =
      (if length (filter (\<lambda>result. candidate_of (strValue_of (snd result)) = Some c) ?ctx3) = 0 then None
       else Some (JSNumber (length (filter (\<lambda>result. candidate_of (strValue_of (snd result)) = Some c) ?ctx3))))"
    using tally_counts [OF h, of NumberToString] by blast
  have "map_of obj c = [cA \<mapsto> JSNumber 2, cB \<mapsto> JSNumber 1] c" for c
    unfolding m length_filter_mset [OF ms]
    using assms(2) by (simp add: candidate_of_encode assms(5,6,7))
  then have "map_of obj = [cA \<mapsto> JSNumber 2, cB \<mapsto> JSNumber 1]"
    by (rule ext)
  then show ?thesis
    using r1 r2 r3 o by blast
qed

theorem GetVoteStatistics_three_votes_witness:
  "\<exists>ctx1 ctx2 ctx3 obj.
     RegisterVote [] ''v1'' ''cA'' ''s1'' = (Inr (), ctx1) \<and>
     RegisterVote ctx1 ''v2'' ''cA'' ''s2'' = (Inr (), ctx2) \<and>
     RegisterVote ctx2 ''v3'' ''cB'' ''s3'' = (Inr (), ctx3) \<and>
     GetVoteStatistics id ctx3 = (Inr obj, ctx3) \<and>
     map_of obj = [''cA'' \<mapsto> JSNumber 2, ''cB'' \<mapsto> JSNumber 1]"
proof -
  have d: "distinct [''v1'', ''v2'', ''v3'']" and n: "''cA'' \<noteq> ''cB''"
    by simp_all
  have p: "Object_prototype ''cA'' = None" "Object_prototype ''cB'' = None"
    by (simp_all add: Object_prototype_def)
  have r1: "strValue_of (encode \<lparr>VoterID = ''v1'', CandidateID = ''cA'', Station = ''s1''\<rparr>) =
      encode \<lparr>VoterID = ''v1'', CandidateID = ''cA'', Station = ''s1''\<rparr>"
    by code_simp
  have r2: "strValue_of (encode \<lparr>VoterID = ''v2'', CandidateID = ''cA'', Station = ''s2''\<rparr>) =
      encode \<lparr>VoterID = ''v2'', CandidateID = ''cA'', Station = ''s2''\<rparr>"
    by code_simp
  have r3: "strValue_of (encode \<lparr>VoterID = ''v3'', CandidateID = ''cB'', Station = ''s3''\<rparr>) =
      encode \<lparr>VoterID = ''v3'', CandidateID = ''cB'', Station = ''s3''\<rparr>"
    by code_simp
  show ?thesis
    by (rule GetVoteStatistics_three_votes [OF d n p r1 r2 r3])
qed

text \<open>
  X4. \<^verbatim>\<open>GetVoteStatistics\<close> skips every entry on which
  \<^verbatim>\<open>JSON.parse\<close> throws: its outcome is the outcome on the store without
  those entries.
\<close>

theorem GetVoteStatistics_skips_unparsed:
  "fst (GetVoteStatistics NumberToString ctx) =
   fst (GetVoteStatistics NumberToString (filter (\<lambda>result. JSON_parse (strValue_of (snd result)) \<noteq> None) ctx))"
  unfolding GetVoteStatistics_def getStateByRange_all fst_conv
  by (rule GetVoteStatistics_loop_skips [symmetric])

theorem GetVoteStatistics_skips_unparsed_witness:
  \<open>fst (GetVoteStatistics id
          [(''v1'', ''{"CandidateID":"cA","Station":"s1","VoterID":"v1"}''), (''v2'', ''{broken'')]) =
     Inr [(''cA'', JSNumber 1)]\<close>
proof -
  have p: \<open>filter (\<lambda>result. JSON_parse (strValue_of (snd result)) \<noteq> None)
      [(''v1'', ''{"CandidateID":"cA","Station":"s1","VoterID":"v1"}''), (''v2'', ''{broken'')] =
      [(''v1'', ''{"CandidateID":"cA","Station":"s1","VoterID":"v1"}'')]\<close>
    by code_simp
  have t: \<open>fst (GetVoteStatistics id [(''v1'', ''{"CandidateID":"cA","Station":"s1","VoterID":"v1"}'')]) =
      Inr [(''cA'', JSNumber 1)]\<close>
    by code_simp
  show ?thesis
    using GetVoteStatistics_skips_unparsed
      [of id \<open>[(''v1'', ''{"CandidateID":"cA","Station":"s1","VoterID":"v1"}''), (''v2'', ''{broken'')]\<close>]
    unfolding p t .
qed

end
